theory Spec2Isabelle
  imports Main
begin

section \<open>Membership results\<close>

text \<open>
  \<^verbatim>\<open>SongInPlaylistsResult = { existsInPlaylists: boolean; playlists: Array<{ uuid; title }> }\<close>
  (playlistMembershipUtils). Track ids, playlist uuids and titles are JavaScript strings;
  they are only compared and carried, so they are modelled as \<^typ>\<open>string\<close>.
\<close>

record PlaylistRef =
  ref_uuid :: string
  ref_title :: string

record SongInPlaylistsResult =
  existsInPlaylists :: bool
  playlists :: "PlaylistRef list"

definition empty_result :: SongInPlaylistsResult where
  "empty_result = \<lparr>existsInPlaylists = False, playlists = []\<rparr>"

section \<open>The membership resolver: cache, in-flight map and concurrency gate\<close>

text \<open>
  The module-level variables \<^verbatim>\<open>membershipResultCache\<close>, \<^verbatim>\<open>membershipInFlight\<close>,
  \<^verbatim>\<open>inFlightCount\<close> and \<^verbatim>\<open>membershipQueue\<close> are the first four fields of the state.
  A promise is a number; \<^verbatim>\<open>nextPromise\<close> is the next unused one. A task is the closure
  \<^verbatim>\<open>run\<close> built by \<^verbatim>\<open>enqueueMembership\<close> for one call of \<^verbatim>\<open>getMembership\<close>: it
  knows its track id and the promise it settles.

  The remaining fields record what the JavaScript event loop holds and what has happened:
  \<^item> \<^verbatim>\<open>looking\<close>: tasks whose \<^verbatim>\<open>run\<close> was called and whose
    \<^verbatim>\<open>checkSongInUserPlaylists\<close> has not settled yet;
  \<^item> \<^verbatim>\<open>settling\<close>: tasks whose body has finished, with the reaction
    \<^verbatim>\<open>.finally(() => membershipInFlight.delete(trackId))\<close> still to run;
  \<^item> \<^verbatim>\<open>releasing\<close>: tasks with only the gate's reaction
    \<^verbatim>\<open>.finally(() => { inFlightCount--; ... })\<close> still to run;
  \<^item> \<^verbatim>\<open>lookups\<close>: the track id of every call of \<^verbatim>\<open>checkSongInUserPlaylists\<close> made so far;
  \<^item> \<^verbatim>\<open>resolution\<close>: the value or error each settled promise carries.

  An error is a JavaScript exception or rejection: one raised by the language
  (\<^verbatim>\<open>TypeError\<close>) or one coming from the host.
\<close>

datatype js_error = TypeError | HostError

type_synonym outcome = "js_error + SongInPlaylistsResult"

record task =
  promise :: nat
  trackId :: string

record resolver =
  membershipResultCache :: "string \<rightharpoonup> SongInPlaylistsResult"
  membershipInFlight :: "string \<rightharpoonup> nat"
  inFlightCount :: int
  membershipQueue :: "task list"
  looking :: "task list"
  settling :: "task list"
  releasing :: "task list"
  lookups :: "string list"
  resolution :: "nat \<rightharpoonup> outcome"
  nextPromise :: nat

definition MAX_CONCURRENT_MEMBERSHIP :: int where
  "MAX_CONCURRENT_MEMBERSHIP = 5"

definition init_resolver :: resolver where
  "init_resolver = \<lparr>membershipResultCache = Map.empty, membershipInFlight = Map.empty,
     inFlightCount = 0, membershipQueue = [], looking = [], settling = [], releasing = [],
     lookups = [], resolution = Map.empty, nextPromise = 0\<rparr>"

text \<open>
  \<^verbatim>\<open>run\<close>: \<^verbatim>\<open>inFlightCount++; task()...\<close>. Calling the task calls
  \<^verbatim>\<open>checkSongInUserPlaylists(trackId)\<close> at once (the body of an async function runs
  synchronously up to its first \<^verbatim>\<open>await\<close>).
\<close>

definition run :: "task \<Rightarrow> resolver \<Rightarrow> resolver" where
  "run t s = s\<lparr>inFlightCount := inFlightCount s + 1,
                looking := looking s @ [t],
                lookups := lookups s @ [trackId t]\<rparr>"

text \<open>
  \<^verbatim>\<open>if (inFlightCount < MAX_CONCURRENT_MEMBERSHIP) run(); else membershipQueue.push(run);\<close>
\<close>

definition enqueueMembership :: "task \<Rightarrow> resolver \<Rightarrow> resolver" where
  "enqueueMembership t s =
     (if inFlightCount s < MAX_CONCURRENT_MEMBERSHIP then run t s
      else s\<lparr>membershipQueue := membershipQueue s @ [t]\<rparr>)"

text \<open>
  What a call of \<^verbatim>\<open>getMembership\<close> hands back: the cached object, or a promise.
\<close>

datatype reply = Cached SongInPlaylistsResult | Pending nat

definition getMembership :: "string \<Rightarrow> resolver \<Rightarrow> reply \<times> resolver" where
  "getMembership T s =
     (case membershipResultCache s T of
        Some cached \<Rightarrow> (Cached cached, s)
      | None \<Rightarrow>
         (case membershipInFlight s T of
            Some existing \<Rightarrow> (Pending existing, s)
          | None \<Rightarrow>
             (let p = nextPromise s;
                  s1 = enqueueMembership \<lparr>promise = p, trackId = T\<rparr> (s\<lparr>nextPromise := p + 1\<rparr>)
              in (Pending p, s1\<lparr>membershipInFlight := (membershipInFlight s1)(T \<mapsto> p)\<rparr>))))"

text \<open>
  The body of the task after its \<^verbatim>\<open>await\<close>: on a result,
  \<^verbatim>\<open>membershipResultCache.set(trackId, result); return result\<close>; on a rejection the body
  rejects and nothing is stored. Either way the promise is settled with the outcome.
\<close>

definition task_settles :: "nat \<Rightarrow> outcome \<Rightarrow> resolver \<Rightarrow> resolver" where
  "task_settles p out s =
     (case find (\<lambda>t. promise t = p) (looking s) of
        None \<Rightarrow> s
      | Some t \<Rightarrow>
         (let s1 = (case out of
                      Inr result \<Rightarrow> s\<lparr>membershipResultCache :=
                                        (membershipResultCache s)(trackId t \<mapsto> result)\<rparr>
                    | Inl _ \<Rightarrow> s)
          in s1\<lparr>looking := remove1 t (looking s1),
                settling := settling s1 @ [t],
                resolution := (resolution s1)(p \<mapsto> out)\<rparr>))"

text \<open>\<^verbatim>\<open>.finally(() => { membershipInFlight.delete(trackId); })\<close> in \<^verbatim>\<open>getMembership\<close>.\<close>

definition outer_finally :: "nat \<Rightarrow> resolver \<Rightarrow> resolver" where
  "outer_finally p s =
     (case find (\<lambda>t. promise t = p) (settling s) of
        None \<Rightarrow> s
      | Some t \<Rightarrow>
         s\<lparr>membershipInFlight := (membershipInFlight s)(trackId t := None),
           settling := remove1 t (settling s),
           releasing := releasing s @ [t]\<rparr>)"

text \<open>
  \<^verbatim>\<open>.finally(() => { inFlightCount--; const next = membershipQueue.shift(); if (next) next(); })\<close>
  in \<^verbatim>\<open>enqueueMembership\<close>.
\<close>

definition gate_finally :: "nat \<Rightarrow> resolver \<Rightarrow> resolver" where
  "gate_finally p s =
     (case find (\<lambda>t. promise t = p) (releasing s) of
        None \<Rightarrow> s
      | Some t \<Rightarrow>
         (let s1 = s\<lparr>inFlightCount := inFlightCount s - 1,
                     releasing := remove1 t (releasing s)\<rparr>
          in (case membershipQueue s1 of
                [] \<Rightarrow> s1
              | next # rest \<Rightarrow> run next (s1\<lparr>membershipQueue := rest\<rparr>))))"

text \<open>\<^verbatim>\<open>membershipResultCache.delete(trackId)\<close>, as the add operation does.\<close>

definition invalidate :: "string \<Rightarrow> resolver \<Rightarrow> resolver" where
  "invalidate T s = s\<lparr>membershipResultCache := (membershipResultCache s)(T := None)\<rparr>"

text \<open>
  One step of the event loop that touches the resolver. The order in which the steps
  happen is the environment's choice; a step that is not enabled leaves the state as it is.
\<close>

datatype event =
    GetMembership string
  | TaskSettles nat outcome
  | OuterFinally nat
  | GateFinally nat
  | Invalidate string

fun step :: "event \<Rightarrow> resolver \<Rightarrow> resolver" where
  "step (GetMembership T) s = snd (getMembership T s)"
| "step (TaskSettles p out) s = task_settles p out s"
| "step (OuterFinally p) s = outer_finally p s"
| "step (GateFinally p) s = gate_finally p s"
| "step (Invalidate T) s = invalidate T s"

definition exec :: "event list \<Rightarrow> resolver \<Rightarrow> resolver" where
  "exec es s = fold step es s"

definition active :: "resolver \<Rightarrow> task list" where
  "active s = looking s @ settling s @ releasing s"


text \<open>
  The invariant of the resolver: the gate's counter counts the started tasks whose slot is
  not released yet, never exceeds the limit, and the queue is non-empty only when the gate
  is full; tasks are distinct, carry distinct promise numbers below \<^verbatim>\<open>nextPromise\<close>; a task
  that has not run its \<^verbatim>\<open>membershipInFlight.delete\<close> yet is the one registered for its
  track; a task that has not finished its body yet has no cached result for its track and
  an unsettled promise; only promises handed out are settled.
\<close>

definition all_tasks :: "resolver \<Rightarrow> task list" where
  "all_tasks s = membershipQueue s @ looking s @ settling s @ releasing s"

definition gate_inv :: "resolver \<Rightarrow> bool" where
  "gate_inv s \<longleftrightarrow>
     inFlightCount s = int (length (active s)) \<and>
     inFlightCount s \<le> MAX_CONCURRENT_MEMBERSHIP \<and>
     (membershipQueue s \<noteq> [] \<longrightarrow> inFlightCount s = MAX_CONCURRENT_MEMBERSHIP)"

definition ids_inv :: "resolver \<Rightarrow> bool" where
  "ids_inv s \<longleftrightarrow>
     distinct (all_tasks s) \<and>
     (\<forall>t \<in> set (all_tasks s). promise t < nextPromise s) \<and>
     (\<forall>t \<in> set (all_tasks s). \<forall>u \<in> set (all_tasks s). promise t = promise u \<longrightarrow> t = u)"

definition reg_inv :: "resolver \<Rightarrow> bool" where
  "reg_inv s \<longleftrightarrow>
     (\<forall>t \<in> set (membershipQueue s) \<union> set (looking s) \<union> set (settling s).
        membershipInFlight s (trackId t) = Some (promise t)) \<and>
     (\<forall>t \<in> set (membershipQueue s) \<union> set (looking s).
        membershipResultCache s (trackId t) = None)"

definition res_inv :: "resolver \<Rightarrow> bool" where
  "res_inv s \<longleftrightarrow>
     (\<forall>p. resolution s p \<noteq> None \<longrightarrow> p < nextPromise s) \<and>
     (\<forall>t \<in> set (membershipQueue s) \<union> set (looking s). resolution s (promise t) = None)"

definition inv :: "resolver \<Rightarrow> bool" where
  "inv s \<longleftrightarrow> gate_inv s \<and> ids_inv s \<and> reg_inv s \<and> res_inv s"

text \<open>How often \<^verbatim>\<open>checkSongInUserPlaylists(T)\<close> has been called.\<close>

definition lookup_count :: "string \<Rightarrow> resolver \<Rightarrow> nat" where
  "lookup_count T s = count_list (lookups s) T"

text \<open>
  How many more lookups for track \<open>T\<close> can start without an invalidation or a failure:
  none when a result is cached or a lookup is running, one otherwise.
\<close>

definition remaining :: "string \<Rightarrow> resolver \<Rightarrow> nat" where
  "remaining T s =
     (if membershipResultCache s T \<noteq> None \<or> (\<exists>t \<in> set (looking s). trackId t = T) then 0 else 1)"

text \<open>\<open>K\<close> calls of \<^verbatim>\<open>getMembership\<close> for the same track, one after the other, with their replies.\<close>

fun asks :: "nat \<Rightarrow> string \<Rightarrow> resolver \<Rightarrow> reply list \<times> resolver" where
  "asks 0 T s = ([], s)"
| "asks (Suc k) T s =
     (let (rep, s1) = getMembership T s;
          (reps, s2) = asks k T s1
      in (rep # reps, s2))"

text \<open>A rejected lookup, as an event.\<close>

fun is_failure :: "event \<Rightarrow> bool" where
  "is_failure (TaskSettles p (Inl e)) = True"
| "is_failure _ = False"

section \<open>The recently-added overlay\<close>

text \<open>
  \<^verbatim>\<open>recentlyAddedByTrack: Map<string, Set<string>>\<close>, together with the host's pending
  \<^verbatim>\<open>setTimeout\<close> callbacks (due time in milliseconds, track id, playlist id) and the clock.
  The host is taken to run a callback when the clock reaches its due time.
\<close>

record overlay =
  recentlyAddedByTrack :: "string \<rightharpoonup> string set"
  timers :: "(nat \<times> string \<times> string) list"
  now :: nat

definition init_overlay :: overlay where
  "init_overlay = \<lparr>recentlyAddedByTrack = Map.empty, timers = [], now = 0\<rparr>"

definition EXPIRY_MS :: nat where
  "EXPIRY_MS = 120000"


definition rememberRecentlyAdded :: "string \<Rightarrow> string \<Rightarrow> overlay \<Rightarrow> overlay" where
  "rememberRecentlyAdded tid pid ov =
     (let set0 = (case recentlyAddedByTrack ov tid of None \<Rightarrow> {} | Some s \<Rightarrow> s)
      in ov\<lparr>recentlyAddedByTrack := (recentlyAddedByTrack ov)(tid \<mapsto> insert pid set0),
            timers := timers ov @ [(now ov + EXPIRY_MS, tid, pid)]\<rparr>)"




text \<open>
  The overlay set of a track, and its use in the modal (\<^verbatim>\<open>populatePlaylistList\<close>):
  \<^verbatim>\<open>const recent = recentlyAddedByTrack.get(...); if (recent && recent.size)
  recent.forEach((pid) => inSet.add(pid));\<close>
\<close>

definition recent_of :: "overlay \<Rightarrow> string \<Rightarrow> string set" where
  "recent_of ov tid = (case recentlyAddedByTrack ov tid of None \<Rightarrow> {} | Some s \<Rightarrow> s)"






section \<open>The playlist-add operation\<close>

text \<open>
  The state the operation touches: the resolver, the overlay, the calls made to the host
  action \<^verbatim>\<open>content/ADD_MEDIA_ITEMS_TO_PLAYLIST\<close> (playlist uuid, media item id), the
  notifications shown (message, type) and the lines written with \<^verbatim>\<open>trace.err\<close>.
\<close>

record plugin =
  membership :: resolver
  recent :: overlay
  host_calls :: "(string \<times> string) list"
  notifications :: "(string \<times> string) list"
  trace_errors :: "string list"

text \<open>
  \<^verbatim>\<open>song.title ? await song.title() : 'Unknown Song'\<close>: the method may be absent, and
  the promise it returns may reject.
\<close>

datatype title_method = NoTitleMethod | TitleRejects | TitleResolves string

record song =
  song_id :: string
  song_title :: title_method

definition showNotification :: "string \<Rightarrow> string \<Rightarrow> plugin \<Rightarrow> plugin" where
  "showNotification message type s = s\<lparr>notifications := notifications s @ [(message, type)]\<rparr>"

text \<open>Decimal digits of a number, as template literals print it.\<close>

fun show_nat :: "nat \<Rightarrow> string" where
  "show_nat n =
     (if n < 10 then [char_of (48 + n)]
      else show_nat (n div 10) @ [char_of (48 + n mod 10)])"

text \<open>
  The loop over \<^verbatim>\<open>selectedPlaylistIds\<close>. \<open>throws\<close> tells for which playlist ids the host
  action throws. The accumulator carries \<^verbatim>\<open>successCount\<close> and \<^verbatim>\<open>errorCount\<close>.
\<close>

fun add_each :: "string \<Rightarrow> (string \<Rightarrow> bool) \<Rightarrow> string list \<Rightarrow> plugin \<times> nat \<times> nat \<Rightarrow> plugin \<times> nat \<times> nat" where
  "add_each sid throws [] acc = acc"
| "add_each sid throws (playlistId # rest) (s, successCount, errorCount) =
     (let s1 = s\<lparr>host_calls := host_calls s @ [(playlistId, sid)]\<rparr>
      in if throws playlistId
         then add_each sid throws rest
                (s1\<lparr>trace_errors := trace_errors s1 @ [''Error adding to playlist '' @ playlistId @ '':'']\<rparr>,
                 successCount, errorCount + 1)
         else add_each sid throws rest
                (s1\<lparr>recent := rememberRecentlyAdded sid playlistId (recent s1)\<rparr>,
                 successCount + 1, errorCount))"

definition plural_s :: "nat \<Rightarrow> string" where
  "plural_s n = (if n > 1 then ''s'' else [])"

definition result_message :: "string \<Rightarrow> nat \<Rightarrow> nat \<Rightarrow> string" where
  "result_message songTitle successCount errorCount =
     (if successCount > 0
      then [CHR 0x22] @ songTitle @ [CHR 0x22] @ '' added to '' @ show_nat successCount
           @ '' playlist'' @ plural_s successCount @ '' ('' @ show_nat errorCount @ '' failed)''
      else ''Failed to add '' @ [CHR 0x22] @ songTitle @ [CHR 0x22] @ '' to playlists'')"

text \<open>
  \<^verbatim>\<open>addToSelectedPlaylists(song)\<close>. \<open>selectedPlaylistIds\<close> is what the query for the checked,
  enabled checkboxes of the modal returned.
\<close>

definition addToSelectedPlaylists :: "song \<Rightarrow> string list \<Rightarrow> (string \<Rightarrow> bool) \<Rightarrow> plugin \<Rightarrow> plugin" where
  "addToSelectedPlaylists sg selectedPlaylistIds throws s =
     (if selectedPlaylistIds = []
      then showNotification ''Please select at least one playlist'' ''error'' s
      else
        (case song_title sg of
           TitleRejects \<Rightarrow>
             showNotification ''Error adding song to playlists'' ''error''
               (s\<lparr>trace_errors := trace_errors s @ [''Error adding song to playlists:'']\<rparr>)
         | tm \<Rightarrow>
             (let songTitle = (case tm of TitleResolves t \<Rightarrow> t | _ \<Rightarrow> ''Unknown Song'');
                  (s1, successCount, errorCount) = add_each (song_id sg) throws selectedPlaylistIds (s, 0, 0);
                  s2 = s1\<lparr>membership := invalidate (song_id sg) (membership s1)\<rparr>
              in if errorCount > 0
                 then showNotification (result_message songTitle successCount errorCount) ''error'' s2
                 else s2)))"

definition init_plugin :: plugin where
  "init_plugin = \<lparr>membership = init_resolver, recent = init_overlay, host_calls = [],
     notifications = [], trace_errors = []\<rparr>"

section \<open>The underlying lookup\<close>

text \<open>
  What \<^verbatim>\<open>checkSongInUserPlaylists\<close> reads from the host. A playlist of the store has a
  type, possibly a creator with an id, a uuid and possibly a title. The values of
  \<^verbatim>\<open>state.content.playlists\<close> may hold null entries. \<^verbatim>\<open>redux.store.getState()\<close> may
  throw, or give nothing to read \<^verbatim>\<open>user\<close> from (\<open>None\<close>).
\<close>

record playlist =
  pl_type :: string
  pl_creator_id :: "string option"
  pl_uuid :: string
  pl_title :: "string option"

record store_state =
  current_user_id :: "string option"
  store_playlists :: "playlist option list"

text \<open>
  The helpers looked up on \<^verbatim>\<open>Playlist as any\<close>: \<^verbatim>\<open>getUserPlaylists\<close> if it is a function,
  otherwise \<^verbatim>\<open>getMyPlaylists\<close> if it is one. A helper may throw, or return something that is
  not an array.
\<close>

datatype helper_reply = HelperThrows | HelperNotArray | HelperArray "playlist option list"

datatype playlist_helpers = NoHelper | GetUserPlaylists helper_reply | GetMyPlaylists helper_reply

text \<open>
  An entry of a playlist's item list, after \<^verbatim>\<open>it?.item ?? it\<close>. The identifier fields are
  given as \<^verbatim>\<open>String(v)\<close> renders them, \<open>None\<close> when undefined or null. The title and
  artist fields are read by the metadata variant only: \<^verbatim>\<open>entry?.artist?.name\<close>, and
  \<^verbatim>\<open>entry?.artists\<close> as the list of its elements' names when it is an array.
\<close>

record entry =
  e_id :: "string option"
  e_mediaItemId :: "string option"
  e_trackId :: "string option"
  e_itemId :: "string option"
  e_productId :: "string option"
  e_title :: "string option"
  e_artist_name :: "string option"
  e_artists :: "string option list option"

datatype raw_item = Wrapped entry | Bare entry

fun entry_of :: "raw_item \<Rightarrow> entry" where
  "entry_of (Wrapped e) = e"
| "entry_of (Bare e) = e"

text \<open>
  What \<^verbatim>\<open>TidalApi.playlistItems(uuid)\<close> gives: a rejection, an array, an object with an
  \<^verbatim>\<open>items\<close> array, an object whose \<^verbatim>\<open>items\<close> is not an array (so \<^verbatim>\<open>rawList.some\<close> is not a
  function), or anything else (\<^verbatim>\<open>?? []\<close>).
\<close>

datatype items_reply =
    ItemsReject
  | ItemsArray "raw_item list"
  | ItemsObject "raw_item list"
  | ItemsMalformed
  | ItemsAbsent

text \<open>
  The host as one lookup finds it: the store (\<open>None\<close> when reading it throws), the
  helpers, the item lists, and for each position of \<^verbatim>\<open>userPlaylists\<close> the moment at which
  the fetch started for that element completes.
\<close>

record lookup_env =
  getState :: "store_state option"
  helpers :: playlist_helpers
  playlistItems :: "string \<Rightarrow> items_reply"
  finished :: "nat \<Rightarrow> nat"

text \<open>\<^verbatim>\<open>pl && pl.type === "USER" && pl.creator?.id === currentUserId\<close>\<close>

definition owned_by :: "string \<Rightarrow> playlist option \<Rightarrow> bool" where
  "owned_by currentUserId pl =
     (case pl of None \<Rightarrow> False
      | Some p \<Rightarrow> pl_type p = ''USER'' \<and> pl_creator_id p = Some currentUserId)"

definition call_helper :: "helper_reply \<Rightarrow> js_error + playlist option list" where
  "call_helper r =
     (case r of HelperThrows \<Rightarrow> Inl HostError
      | HelperNotArray \<Rightarrow> Inr []
      | HelperArray arr \<Rightarrow> Inr arr)"

text \<open>
  The fallback block, with its own \<^verbatim>\<open>try\<close>/\<^verbatim>\<open>catch\<close>: on an error \<^verbatim>\<open>userPlaylists\<close> stays
  what it was.
\<close>

definition fallback :: "playlist_helpers \<Rightarrow> playlist option list \<Rightarrow> playlist option list" where
  "fallback h userPlaylists =
     (case h of
        NoHelper \<Rightarrow> userPlaylists
      | GetUserPlaylists r \<Rightarrow> (case call_helper r of Inl _ \<Rightarrow> userPlaylists | Inr arr \<Rightarrow> arr)
      | GetMyPlaylists r \<Rightarrow> (case call_helper r of Inl _ \<Rightarrow> userPlaylists | Inr arr \<Rightarrow> arr))"

text \<open>The array the available helper returned, if any.\<close>

definition helper_array :: "playlist_helpers \<Rightarrow> playlist option list" where
  "helper_array h =
     (case h of
        NoHelper \<Rightarrow> []
      | GetUserPlaylists r \<Rightarrow> (case r of HelperArray arr \<Rightarrow> arr | _ \<Rightarrow> [])
      | GetMyPlaylists r \<Rightarrow> (case r of HelperArray arr \<Rightarrow> arr | _ \<Rightarrow> []))"

text \<open>
  \<^verbatim>\<open>candidates.map(normalize).some((cid) => cid !== undefined && cid === needle)\<close> with
  \<^verbatim>\<open>needle = String(songId)\<close>.
\<close>

definition id_matches :: "string \<Rightarrow> raw_item \<Rightarrow> bool" where
  "id_matches songId it =
     (let e = entry_of it
      in Some songId \<in> set [e_id e, e_mediaItemId e, e_trackId e, e_itemId e, e_productId e])"

text \<open>
  The list \<^verbatim>\<open>rawList\<close> of one \<^verbatim>\<open>userPlaylists.map(async (pl) => { try { ... } catch ... })\<close>
  callback, or the error its \<^verbatim>\<open>catch\<close> receives.
\<close>

definition raw_list :: "lookup_env \<Rightarrow> playlist \<Rightarrow> js_error + raw_item list" where
  "raw_list env p =
     (case playlistItems env (pl_uuid p) of
        ItemsReject \<Rightarrow> Inl HostError
      | ItemsArray xs \<Rightarrow> Inr xs
      | ItemsObject xs \<Rightarrow> Inr xs
      | ItemsMalformed \<Rightarrow> Inl TypeError
      | ItemsAbsent \<Rightarrow> Inr [])"

definition playlist_ref :: "playlist \<Rightarrow> PlaylistRef" where
  "playlist_ref p = \<lparr>ref_uuid = pl_uuid p,
     ref_title = (case pl_title p of None \<Rightarrow> ''Untitled Playlist'' | Some t \<Rightarrow> t)\<rparr>"

text \<open>
  One callback: the reference it pushes, if any, or the error with which its promise
  rejects. An error of the fetch or of \<^verbatim>\<open>rawList.some\<close> is caught and logged, and the
  callback completes without a push. On a null element \<^verbatim>\<open>pl.uuid\<close> throws in the \<^verbatim>\<open>try\<close>
  block, and the handler \<^verbatim>\<open>console.error(`... ${pl.uuid}`, err)\<close> reads \<^verbatim>\<open>pl.uuid\<close> again: this
  second \<^verbatim>\<open>TypeError\<close> leaves the callback.
\<close>

definition check_playlist :: "lookup_env \<Rightarrow> (raw_item \<Rightarrow> bool) \<Rightarrow> playlist option \<Rightarrow> js_error + PlaylistRef option" where
  "check_playlist env matches pl =
     (case pl of
        None \<Rightarrow> Inl TypeError
      | Some p \<Rightarrow>
         (case raw_list env p of
            Inl err \<Rightarrow> Inr None
          | Inr rawList \<Rightarrow> Inr (if list_ex matches rawList then Some (playlist_ref p) else None)))"

text \<open>
  The callbacks of the elements from position \<open>i\<close> on: the pushes with the positions of
  their elements, or the error with which \<^verbatim>\<open>Promise.all\<close> rejects, which it does as soon as
  one callback rejects.
\<close>

fun pushes :: "lookup_env \<Rightarrow> (raw_item \<Rightarrow> bool) \<Rightarrow> nat \<Rightarrow> playlist option list \<Rightarrow> js_error + (nat \<times> PlaylistRef) list" where
  "pushes env matches i [] = Inr []"
| "pushes env matches i (pl # rest) =
     (case check_playlist env matches pl of
        Inl err \<Rightarrow> Inl err
      | Inr found \<Rightarrow>
         (case pushes env matches (Suc i) rest of
            Inl err \<Rightarrow> Inl err
          | Inr later \<Rightarrow> Inr (case found of None \<Rightarrow> later | Some r \<Rightarrow> (i, r) # later)))"

text \<open>
  \<^verbatim>\<open>containingPlaylists\<close> after \<^verbatim>\<open>await Promise.all(...)\<close>, or the error thrown there. Each
  push follows the completion of its fetch, so the list is in the order in which the
  fetches complete (elements whose fetches complete together keep the order of
  \<^verbatim>\<open>userPlaylists\<close>).
\<close>

definition containing :: "lookup_env \<Rightarrow> (raw_item \<Rightarrow> bool) \<Rightarrow> playlist option list \<Rightarrow> js_error + PlaylistRef list" where
  "containing env matches userPlaylists =
     (case pushes env matches 0 userPlaylists of
        Inl err \<Rightarrow> Inl err
      | Inr found \<Rightarrow> Inr (map snd (sort_key (\<lambda>(i, r). finished env i) found)))"

text \<open>
  Both lookups share everything but the test on an entry. The inner function is the
  \<^verbatim>\<open>try\<close> block, the outer one adds
  \<^verbatim>\<open>catch (err) { ...; return { existsInPlaylists: false, playlists: [] }; }\<close>.
\<close>

definition lookup_body :: "lookup_env \<Rightarrow> (raw_item \<Rightarrow> bool) \<Rightarrow> js_error + SongInPlaylistsResult" where
  "lookup_body env matches =
     (case getState env of
        None \<Rightarrow> Inl HostError
      | Some state \<Rightarrow>
         (case current_user_id state of
            None \<Rightarrow> Inr empty_result
          | Some currentUserId \<Rightarrow>
             (if currentUserId = [] then Inr empty_result
              else
                (let filtered = filter (owned_by currentUserId) (store_playlists state);
                     userPlaylists = (if filtered = [] then fallback (helpers env) filtered
                                      else filtered)
                 in if userPlaylists = [] then Inr empty_result
                    else
                      (case containing env matches userPlaylists of
                         Inl err \<Rightarrow> Inl err
                       | Inr containingPlaylists \<Rightarrow>
                           Inr \<lparr>existsInPlaylists = (length containingPlaylists > 0),
                                playlists = containingPlaylists\<rparr>)))))"

definition catch_all :: "js_error + SongInPlaylistsResult \<Rightarrow> js_error + SongInPlaylistsResult" where
  "catch_all r = (case r of Inl err \<Rightarrow> Inr empty_result | Inr v \<Rightarrow> Inr v)"

definition checkSongInUserPlaylists :: "lookup_env \<Rightarrow> string \<Rightarrow> js_error + SongInPlaylistsResult" where
  "checkSongInUserPlaylists env songId = catch_all (lookup_body env (id_matches songId))"

subsection \<open>The metadata variant\<close>

text \<open>
  \<^verbatim>\<open>normalize\<close> of \<^verbatim>\<open>checkSongInUserPlaylistsByMeta\<close>:
  \<^verbatim>\<open>String(s ?? "").toLowerCase().replace(/[\s\u00A0]+/g, " ").replace(/[^a-zA-Z0-9\s]/g, "").trim()\<close>.
  A character stands for a UTF-16 code unit below 256; on these, \<^verbatim>\<open>toLowerCase\<close> moves
  A to Z and the capital letters from U+00C0 to U+00DE (the multiplication sign apart) up by 32,
  and the white space of \<^verbatim>\<open>\s\<close> is tab, line feed, vertical tab, form feed, carriage
  return, space and U+00A0.
\<close>

definition code :: "char \<Rightarrow> nat" where
  "code c = of_char c"

definition toLowerCase_char :: "char \<Rightarrow> char" where
  "toLowerCase_char c =
     (if (65 \<le> code c \<and> code c \<le> 90) \<or> (192 \<le> code c \<and> code c \<le> 222 \<and> code c \<noteq> 215)
      then char_of (code c + 32) else c)"

definition is_space :: "char \<Rightarrow> bool" where
  "is_space c \<longleftrightarrow> code c \<in> {9, 10, 11, 12, 13, 32, 160}"

definition is_digit :: "char \<Rightarrow> bool" where
  "is_digit c \<longleftrightarrow> 48 \<le> code c \<and> code c \<le> 57"

definition is_alnum :: "char \<Rightarrow> bool" where
  "is_alnum c \<longleftrightarrow> is_digit c \<or> (65 \<le> code c \<and> code c \<le> 90) \<or> (97 \<le> code c \<and> code c \<le> 122)"

text \<open>Every maximal run of white space becomes one space; the flag tells that the run has begun.\<close>

fun collapse_spaces :: "bool \<Rightarrow> string \<Rightarrow> string" where
  "collapse_spaces inRun [] = []"
| "collapse_spaces inRun (c # cs) =
     (if is_space c
      then (if inRun then collapse_spaces True cs else CHR '' '' # collapse_spaces True cs)
      else c # collapse_spaces False cs)"

definition trim :: "string \<Rightarrow> string" where
  "trim s = rev (dropWhile is_space (rev (dropWhile is_space s)))"

definition normalize :: "string option \<Rightarrow> string" where
  "normalize v =
     (let s = (case v of None \<Rightarrow> [] | Some x \<Rightarrow> x)
      in trim (filter (\<lambda>c. is_alnum c \<or> is_space c) (collapse_spaces False (map toLowerCase_char s))))"

record meta =
  meta_title :: string
  meta_artist :: "string option"

text \<open>
  \<^verbatim>\<open>entry?.artist?.name ?? (Array.isArray(entry?.artists) && entry.artists[0]?.name) ??
  (entry?.artists && entry.artists[0] && entry.artists[0].name)\<close>, then \<^verbatim>\<open>String(s ?? "")\<close>:
  when there is no artist name and \<^verbatim>\<open>artists\<close> is not an array the middle operand is
  \<^verbatim>\<open>false\<close>, which is not nullish, so the text is \<^verbatim>\<open>"false"\<close>.
\<close>

definition entry_artist :: "entry \<Rightarrow> string" where
  "entry_artist e =
     (case e_artist_name e of
        Some n \<Rightarrow> n
      | None \<Rightarrow>
         (case e_artists e of
            None \<Rightarrow> ''false''
          | Some [] \<Rightarrow> []
          | Some (first # _) \<Rightarrow> (case first of None \<Rightarrow> [] | Some n \<Rightarrow> n)))"

definition meta_matches :: "meta \<Rightarrow> raw_item \<Rightarrow> bool" where
  "meta_matches m it =
     (let e = entry_of it;
          targetTitle = normalize (Some (meta_title m));
          targetArtist = (case meta_artist m of
                            None \<Rightarrow> []
                          | Some a \<Rightarrow> (if a = [] then [] else normalize (Some a)));
          eTitle = normalize (e_title e);
          eArtist = normalize (Some (entry_artist e))
      in if targetTitle = [] then False
         else if targetArtist \<noteq> [] then eTitle = targetTitle \<and> eArtist = targetArtist
         else eTitle = targetTitle)"

definition checkSongInUserPlaylistsByMeta :: "lookup_env \<Rightarrow> meta \<Rightarrow> js_error + SongInPlaylistsResult" where
  "checkSongInUserPlaylistsByMeta env m = catch_all (lookup_body env (meta_matches m))"

text \<open>
  The task the resolver runs is \<^verbatim>\<open>checkSongInUserPlaylists(trackId)\<close>: the step in which
  the lookup of promise \<open>p\<close> settles, with what the host gave it.
\<close>

definition lookup_settles :: "lookup_env \<Rightarrow> nat \<Rightarrow> resolver \<Rightarrow> resolver" where
  "lookup_settles env p s =
     (case find (\<lambda>t. promise t = p) (looking s) of
        None \<Rightarrow> s
      | Some t \<Rightarrow> task_settles p (checkSongInUserPlaylists env (trackId t)) s)"

text \<open>
  The resolver with its real task: the steps of \<open>step\<close>, the settling of a task
  being the settling of \<^verbatim>\<open>checkSongInUserPlaylists\<close> on what the host gives at that moment.
\<close>

datatype host_event =
    RowAsks string
  | LookupSettles lookup_env nat
  | InFlightDeleted nat
  | SlotReleased nat
  | CacheDeleted string

fun host_step :: "host_event \<Rightarrow> resolver \<Rightarrow> resolver" where
  "host_step (RowAsks T) s = snd (getMembership T s)"
| "host_step (LookupSettles env p) s = lookup_settles env p s"
| "host_step (InFlightDeleted p) s = outer_finally p s"
| "host_step (SlotReleased p) s = gate_finally p s"
| "host_step (CacheDeleted T) s = invalidate T s"

definition host_exec :: "host_event list \<Rightarrow> resolver \<Rightarrow> resolver" where
  "host_exec es s = fold host_step es s"

text \<open>The same step as an event of the resolver, with the outcome the lookup gives.\<close>

definition as_event :: "resolver \<Rightarrow> host_event \<Rightarrow> event" where
  "as_event s ev =
     (case ev of
        RowAsks T \<Rightarrow> GetMembership T
      | LookupSettles env p \<Rightarrow>
          (case find (\<lambda>t. promise t = p) (looking s) of
             None \<Rightarrow> TaskSettles p (Inr empty_result)
           | Some t \<Rightarrow> TaskSettles p (checkSongInUserPlaylists env (trackId t)))
      | InFlightDeleted p \<Rightarrow> OuterFinally p
      | SlotReleased p \<Rightarrow> GateFinally p
      | CacheDeleted T \<Rightarrow> Invalidate T)"

section \<open>The row pipeline\<close>

text \<open>
  A row is a DOM element: its attributes and its descendants in document order. Of a
  descendant the tag name, the attributes and, for an anchor, the \<^verbatim>\<open>href\<close> property (the
  resolved address) are used.
\<close>

record element =
  el_tag :: string
  el_attrs :: "string \<rightharpoonup> string"
  el_href :: "string option"

record row =
  row_attrs :: "string \<rightharpoonup> string"
  descendants :: "element list"

definition DISABLE_MEMBERSHIP_BADGES :: bool where
  "DISABLE_MEMBERSHIP_BADGES = True"

text \<open>A string is truthy when it is present and not empty (\<^verbatim>\<open>if (id)\<close>, \<^verbatim>\<open>a || b\<close>).\<close>

definition truthy :: "string option \<Rightarrow> string option" where
  "truthy v = (case v of None \<Rightarrow> None | Some x \<Rightarrow> (if x = [] then None else Some x))"

definition attrCandidates :: "string list" where
  "attrCandidates = [''data-track-id'', ''data-id'', ''data-item-id'', ''data-media-item-id'',
     ''data-product-id'', ''data-media-id'', ''data-row-id'']"

text \<open>
  The loop over \<^verbatim>\<open>attrCandidates\<close>: the attribute on the row itself, then on the first
  descendant that has it (\<^verbatim>\<open>host.querySelector(`[${attr}]`)\<close>).
\<close>

fun by_attribute :: "string list \<Rightarrow> row \<Rightarrow> string option" where
  "by_attribute [] r = None"
| "by_attribute (attr # rest) r =
     (case truthy (row_attrs r attr) of
        Some direct \<Rightarrow> Some direct
      | None \<Rightarrow>
         (case find (\<lambda>e. el_attrs e attr \<noteq> None) (descendants r) of
            None \<Rightarrow> by_attribute rest r
          | Some child \<Rightarrow>
             (case truthy (el_attrs child attr) of
                Some viaChild \<Rightarrow> Some viaChild
              | None \<Rightarrow> by_attribute rest r)))"

text \<open>\<^verbatim>\<open>[href*="..."]\<close>: the attribute value contains the text.\<close>

fun contains :: "string \<Rightarrow> string \<Rightarrow> bool" where
  "contains sub [] = (sub = [])"
| "contains sub (c # cs) = (take (length sub) (c # cs) = sub \<or> contains sub cs)"

definition link_to :: "string \<Rightarrow> element \<Rightarrow> bool" where
  "link_to sub e \<longleftrightarrow>
     el_tag e = ''a'' \<and> (case el_attrs e ''href'' of None \<Rightarrow> False | Some h \<Rightarrow> contains sub h)"

text \<open>
  \<^verbatim>\<open>href.match(/<prefix>(\d+)/)\<close>: the leftmost place where the prefix is followed by a
  digit, and the longest run of digits there.
\<close>

fun match_digits_after :: "string \<Rightarrow> string \<Rightarrow> string option" where
  "match_digits_after pre [] = None"
| "match_digits_after pre (c # cs) =
     (if take (length pre) (c # cs) = pre \<and> takeWhile is_digit (drop (length pre) (c # cs)) \<noteq> []
      then Some (takeWhile is_digit (drop (length pre) (c # cs)))
      else match_digits_after pre cs)"

definition by_link :: "row \<Rightarrow> string option" where
  "by_link r =
     (let link = (case find (link_to ''/track/'') (descendants r) of
                    Some l \<Rightarrow> Some l
                  | None \<Rightarrow> find (link_to ''track/'') (descendants r))
      in case link of
           None \<Rightarrow> None
         | Some l \<Rightarrow>
            (case truthy (case el_href l of Some h \<Rightarrow> Some h | None \<Rightarrow> el_attrs l ''href'') of
               None \<Rightarrow> None
             | Some href \<Rightarrow>
                (case match_digits_after ''/track/'' href of
                   Some d \<Rightarrow> Some d
                 | None \<Rightarrow> match_digits_after ''track/'' href)))"

definition getTrackIdFromRow :: "row \<Rightarrow> string option" where
  "getTrackIdFromRow host =
     (let titleCell =
            (if row_attrs host ''data-test'' = Some ''table-cell-title''
             then (case truthy (row_attrs host ''data-id'') of
                     Some v \<Rightarrow> Some v
                   | None \<Rightarrow> truthy (row_attrs host ''data-track-id''))
             else None)
      in case titleCell of
           Some v \<Rightarrow> Some v
         | None \<Rightarrow>
            (case by_attribute attrCandidates host of
               Some v \<Rightarrow> Some v
             | None \<Rightarrow> by_link host))"

text \<open>
  \<^verbatim>\<open>annotateRowWithMembership\<close>. \<^verbatim>\<open>DISABLE_MEMBERSHIP_BADGES\<close> is the constant \<^verbatim>\<open>true\<close>, so
  the function returns after setting the two attributes and the native tooltip
  (\<^verbatim>\<open>host.title\<close>, which is the \<^verbatim>\<open>title\<close> attribute); the badge code behind it is never run.
\<close>

fun join :: "string \<Rightarrow> string list \<Rightarrow> string" where
  "join sep [] = []"
| "join sep [x] = x"
| "join sep (x # y # ys) = x @ sep @ join sep (y # ys)"

definition tooltip :: "SongInPlaylistsResult \<Rightarrow> string" where
  "tooltip result =
     (let count = length (playlists result);
          titles = join '', '' (map ref_title (playlists result))
      in if count > 0
         then ''In playlists: '' @ show_nat count @ [CHR '' '', CHR 0xE2, CHR 0x80, CHR 0x94, CHR '' ''] @ titles
         else ''Not in any playlists'')"

definition annotateRowWithMembership :: "row \<Rightarrow> SongInPlaylistsResult \<Rightarrow> row" where
  "annotateRowWithMembership r result =
     r\<lparr>row_attrs := (row_attrs r)
          (''data-ml-in-playlists'' \<mapsto> (if existsInPlaylists result then ''true'' else ''false''),
           ''data-ml-playlist-count'' \<mapsto> show_nat (length (playlists result)),
           ''title'' \<mapsto> tooltip result)\<rparr>"

text \<open>
  The page: the resolver, the rows by node, and what the pipeline has done so far: how
  often it ran \<^verbatim>\<open>getTrackIdFromRow\<close>, the track ids it passed to \<^verbatim>\<open>getMembership\<close> and to
  \<^verbatim>\<open>MediaItem.fromId\<close>, the rows waiting for a reply, and what the \<^verbatim>\<open>.catch\<close> handler
  \<^verbatim>\<open>trace.msg.err.withContext("membership.check")\<close> reported.
\<close>

record page =
  page_resolver :: resolver
  dom :: "nat \<rightharpoonup> row"
  extractions :: nat
  membership_calls :: "string list"
  warm_resolves :: "string list"
  waiting :: "(nat \<times> reply) list"
  reported :: "string list"

definition marked :: "row \<Rightarrow> bool" where
  "marked r \<longleftrightarrow> row_attrs r ''data-ml-playlist-checked'' = Some ''1''"

definition mark :: "row \<Rightarrow> row" where
  "mark r = r\<lparr>row_attrs := (row_attrs r)(''data-ml-playlist-checked'' \<mapsto> ''1'')\<rparr>"

definition processTrackRow :: "nat \<Rightarrow> page \<Rightarrow> page" where
  "processTrackRow node pg =
     (case dom pg node of
        None \<Rightarrow> pg
      | Some host \<Rightarrow>
         (if marked host then pg
          else
            (let pg1 = pg\<lparr>extractions := extractions pg + 1\<rparr>
             in case getTrackIdFromRow host of
                  None \<Rightarrow> pg1\<lparr>dom := (dom pg1)(node \<mapsto> mark host)\<rparr>
                | Some tid \<Rightarrow>
                   (let (rep, res) = getMembership tid (page_resolver pg1)
                    in pg1\<lparr>dom := (dom pg1)(node \<mapsto> mark host),
                           warm_resolves := warm_resolves pg1 @ [tid],
                           membership_calls := membership_calls pg1 @ [tid],
                           page_resolver := res,
                           waiting := waiting pg1 @ [(node, rep)]\<rparr>))))"

text \<open>
  The reactions attached in \<^verbatim>\<open>processTrackRow\<close>, run when the reply is there:
  \<^verbatim>\<open>.then((res) => annotateRowWithMembership(row, res)).catch(...)\<close>.
\<close>

definition membership_settled :: "nat \<Rightarrow> outcome \<Rightarrow> page \<Rightarrow> page" where
  "membership_settled node out pg =
     (case out of
        Inr res \<Rightarrow>
          (case dom pg node of
             None \<Rightarrow> pg
           | Some host \<Rightarrow> pg\<lparr>dom := (dom pg)(node \<mapsto> annotateRowWithMembership host res)\<rparr>)
      | Inl err \<Rightarrow> pg\<lparr>reported := reported pg @ [''membership.check'']\<rparr>)"




text \<open>No promise has been rejected.\<close>

definition no_rejection :: "resolver \<Rightarrow> bool" where
  "no_rejection s \<longleftrightarrow> (\<forall>q e. resolution s q \<noteq> Some (Inl e))"

section \<open>Example runs\<close>

text \<open>Seven rows for seven tracks are processed in one go.\<close>

definition burst :: "event list" where
  "burst = map GetMembership [''a'', ''b'', ''c'', ''d'', ''e'', ''f'', ''g'']"

text \<open>
  Track 123 has been looked up and its (empty) result is cached; then the modal is used
  for it. The host action throws for playlist C only.
\<close>

definition cached_123 :: resolver where
  "cached_123 = exec [GetMembership ''123'', TaskSettles 0 (Inr empty_result),
     OuterFinally 0, GateFinally 0] init_resolver"

definition plugin_123 :: plugin where
  "plugin_123 = init_plugin\<lparr>membership := cached_123\<rparr>"

definition throws_never :: "string \<Rightarrow> bool" where
  "throws_never playlistId = False"

definition throws_on_C :: "string \<Rightarrow> bool" where
  "throws_on_C playlistId = (playlistId = ''C'')"

text \<open>The modal is used for track 123 while its first lookup is still running.\<close>

definition plugin_123_in_flight :: plugin where
  "plugin_123_in_flight = init_plugin\<lparr>membership := exec [GetMembership ''123''] init_resolver\<rparr>"

text \<open>
  The scenario of the specification: the user owns playlist A, which contains track 123,
  and playlist B, which is empty; the store also holds a playlist of somebody else that
  contains the track.
\<close>

definition track_entry :: "string \<Rightarrow> entry" where
  "track_entry i = \<lparr>e_id = Some i, e_mediaItemId = None, e_trackId = None, e_itemId = None,
     e_productId = None, e_title = None, e_artist_name = None, e_artists = None\<rparr>"

definition playlist_A :: playlist where
  "playlist_A = \<lparr>pl_type = ''USER'', pl_creator_id = Some ''me'', pl_uuid = ''A'', pl_title = Some ''Mine''\<rparr>"

definition playlist_B :: playlist where
  "playlist_B = \<lparr>pl_type = ''USER'', pl_creator_id = Some ''me'', pl_uuid = ''B'', pl_title = None\<rparr>"

definition playlist_X :: playlist where
  "playlist_X = \<lparr>pl_type = ''USER'', pl_creator_id = Some ''other'', pl_uuid = ''X'', pl_title = Some ''Theirs''\<rparr>"

definition items_AX :: "string \<Rightarrow> items_reply" where
  "items_AX u = (if u = ''A'' \<or> u = ''X'' then ItemsArray [Bare (track_entry ''123'')] else ItemsArray [])"

definition env_mine :: lookup_env where
  "env_mine = \<lparr>getState = Some \<lparr>current_user_id = Some ''me'',
                   store_playlists = [Some playlist_A, Some playlist_X, None, Some playlist_B]\<rparr>,
                helpers = NoHelper, playlistItems = items_AX, finished = (\<lambda>i. i)\<rparr>"

text \<open>
  The store has no playlist of the user yet; \<^verbatim>\<open>Playlist.getUserPlaylists\<close> exists and its
  array holds the other user's playlist.
\<close>

definition env_helper :: lookup_env where
  "env_helper = \<lparr>getState = Some \<lparr>current_user_id = Some ''me'', store_playlists = [Some playlist_X]\<rparr>,
                  helpers = GetUserPlaylists (HelperArray [Some playlist_X]), playlistItems = items_AX,
                  finished = (\<lambda>i. i)\<rparr>"

definition env_nobody :: lookup_env where
  "env_nobody = \<lparr>getState = Some \<lparr>current_user_id = None, store_playlists = [Some playlist_X]\<rparr>,
                  helpers = GetUserPlaylists (HelperArray [Some playlist_X]), playlistItems = items_AX,
                  finished = (\<lambda>i. i)\<rparr>"

text \<open>The same host, but the array of the helper also holds a null element.\<close>

definition env_null :: lookup_env where
  "env_null = \<lparr>getState = Some \<lparr>current_user_id = Some ''me'', store_playlists = [Some playlist_X]\<rparr>,
                helpers = GetUserPlaylists (HelperArray [Some playlist_X, None]), playlistItems = items_AX,
                finished = (\<lambda>i. i)\<rparr>"

text \<open>
  The user owns playlists A and B, both contain the track, and the fetch for A, started
  first, completes after the one for B.
\<close>

definition env_slow_A :: lookup_env where
  "env_slow_A = \<lparr>getState = Some \<lparr>current_user_id = Some ''me'',
                     store_playlists = [Some playlist_A, Some playlist_B]\<rparr>,
                  helpers = NoHelper, playlistItems = (\<lambda>u. ItemsArray [Bare (track_entry ''123'')]),
                  finished = (\<lambda>i. if i = 0 then 2 else 1)\<rparr>"

text \<open>
  Reading the store throws. The user's playlists are in the store, but the item list of
  every playlist cannot be fetched.
\<close>

definition env_broken :: lookup_env where
  "env_broken = \<lparr>getState = None, helpers = NoHelper, playlistItems = items_AX,
                  finished = (\<lambda>i. i)\<rparr>"

definition env_offline :: lookup_env where
  "env_offline = \<lparr>getState = Some \<lparr>current_user_id = Some ''me'',
                      store_playlists = [Some playlist_A, Some playlist_B]\<rparr>,
                   helpers = NoHelper, playlistItems = (\<lambda>u. ItemsReject),
                   finished = (\<lambda>i. i)\<rparr>"

text \<open>
  A page with two rows: node 0 carries \<^verbatim>\<open>data-track-id="123"\<close>, node 1 has no
  recognisable id but a link that is not a track link.
\<close>

definition row_123 :: row where
  "row_123 = \<lparr>row_attrs = [''data-test'' \<mapsto> ''tracklist-row'', ''data-track-id'' \<mapsto> ''123''],
               descendants = []\<rparr>"

definition row_plain :: row where
  "row_plain = \<lparr>row_attrs = [''role'' \<mapsto> ''row''],
                 descendants = [\<lparr>el_tag = ''a'', el_attrs = [''href'' \<mapsto> ''/album/77''],
                                 el_href = Some ''https://listen.example/album/77''\<rparr>]\<rparr>"

definition row_linked :: row where
  "row_linked = \<lparr>row_attrs = Map.empty,
                  descendants = [\<lparr>el_tag = ''a'', el_attrs = [''href'' \<mapsto> ''/track/4567?u''],
                                  el_href = Some ''https://listen.example/track/4567?u''\<rparr>]\<rparr>"

definition page_2 :: page where
  "page_2 = \<lparr>page_resolver = init_resolver, dom = [0 \<mapsto> row_123, 1 \<mapsto> row_plain],
              extractions = 0, membership_calls = [], warm_resolves = [], waiting = [],
              reported = []\<rparr>"



text \<open>
  After a first row has asked for track 123, three more do: one while the lookup runs,
  one right after it has settled, one when both \<^verbatim>\<open>finally\<close> reactions have run.
\<close>

definition result_A :: SongInPlaylistsResult where
  "result_A = \<lparr>existsInPlaylists = True, playlists = [\<lparr>ref_uuid = ''A'', ref_title = ''Mine''\<rparr>]\<rparr>"

definition three_rows :: "host_event list" where
  "three_rows = [RowAsks ''123'', LookupSettles env_mine 0, RowAsks ''123'',
     InFlightDeleted 0, SlotReleased 0, RowAsks ''123'']"

text \<open>The first lookup of track 123 is over and all its reactions have run.\<close>

definition cached_A :: resolver where
  "cached_A = host_exec [RowAsks ''123'', LookupSettles env_mine 0, InFlightDeleted 0, SlotReleased 0]
     init_resolver"


section \<open>Proofs: the invariant of the resolver\<close>

lemma find_SomeD: "find P xs = Some t \<Longrightarrow> t \<in> set xs \<and> P t"
  by (induction xs) (auto split: if_splits)

lemma int_length_remove1:
  "t \<in> set xs \<Longrightarrow> int (length (remove1 t xs)) = int (length xs) - 1"
  by (induction xs) auto

lemma gate_inv_init: "gate_inv init_resolver"
  by (simp add: gate_inv_def init_resolver_def active_def MAX_CONCURRENT_MEMBERSHIP_def)

lemma gate_inv_getMembership: "gate_inv s \<Longrightarrow> gate_inv (snd (getMembership T s))"
  by (auto simp: gate_inv_def getMembership_def enqueueMembership_def run_def active_def
      MAX_CONCURRENT_MEMBERSHIP_def Let_def split: option.splits)

lemma gate_inv_task_settles: "gate_inv s \<Longrightarrow> gate_inv (task_settles p out s)"
  by (auto simp: gate_inv_def task_settles_def active_def int_length_remove1 Let_def
      dest!: find_SomeD split: option.splits sum.splits)

lemma gate_inv_outer_finally: "gate_inv s \<Longrightarrow> gate_inv (outer_finally p s)"
  by (auto simp: gate_inv_def outer_finally_def active_def int_length_remove1
      dest!: find_SomeD split: option.splits)

lemma gate_inv_gate_finally: "gate_inv s \<Longrightarrow> gate_inv (gate_finally p s)"
  by (auto simp: gate_inv_def gate_finally_def run_def active_def int_length_remove1 Let_def
      MAX_CONCURRENT_MEMBERSHIP_def
      dest!: find_SomeD split: option.splits list.splits)

lemma gate_inv_invalidate: "gate_inv s \<Longrightarrow> gate_inv (invalidate T s)"
  by (auto simp: gate_inv_def invalidate_def active_def)


lemma ids_inv_init: "ids_inv init_resolver"
  by (simp add: ids_inv_def all_tasks_def init_resolver_def)

lemma ids_inv_getMembership:
  assumes "ids_inv s"
  shows "ids_inv (snd (getMembership T s))"
proof (cases "membershipResultCache s T = None \<and> membershipInFlight s T = None")
  case False
  then show ?thesis using assms by (auto simp: getMembership_def split: option.splits)
next
  case True
  let ?t = "\<lparr>promise = nextPromise s, trackId = T\<rparr>"
  let ?s' = "snd (getMembership T s)"
  have fresh: "promise t < nextPromise s" if "t \<in> set (all_tasks s)" for t
    using assms that by (simp add: ids_inv_def)
  then have new: "?t \<notin> set (all_tasks s)"
    by fastforce
  have st: "set (all_tasks ?s') = insert ?t (set (all_tasks s))"
    using True
    by (auto simp: all_tasks_def getMembership_def enqueueMembership_def run_def Let_def)
  have n: "nextPromise ?s' = Suc (nextPromise s)"
    using True by (simp add: getMembership_def enqueueMembership_def run_def Let_def)
  have d: "distinct (all_tasks ?s')"
    using True new assms
    by (auto simp: ids_inv_def all_tasks_def getMembership_def enqueueMembership_def run_def
        Let_def)
  have b: "\<forall>t \<in> set (all_tasks ?s'). promise t < nextPromise ?s'"
    using fresh by (auto simp: st n less_Suc_eq)
  have u: "\<forall>t \<in> set (all_tasks ?s'). \<forall>u \<in> set (all_tasks ?s'). promise t = promise u \<longrightarrow> t = u"
  proof (intro ballI impI)
    fix t u assume tu: "t \<in> set (all_tasks ?s')" "u \<in> set (all_tasks ?s')" "promise t = promise u"
    show "t = u"
    proof (cases "t = ?t \<or> u = ?t")
      case True
      then show ?thesis using tu fresh unfolding st by fastforce
    next
      case False
      then show ?thesis using tu assms unfolding st ids_inv_def by blast
    qed
  qed
  show ?thesis unfolding ids_inv_def using d b u by blast
qed

lemma ids_inv_sub:
  assumes "ids_inv s" and "distinct (all_tasks s')"
    and "set (all_tasks s') \<subseteq> set (all_tasks s)"
    and "nextPromise s' = nextPromise s"
  shows "ids_inv s'"
  using assms unfolding ids_inv_def by (metis subsetD)

lemma ids_inv_task_settles: "ids_inv s \<Longrightarrow> ids_inv (task_settles p out s)"
  by (rule ids_inv_sub[of s])
     (auto simp: ids_inv_def all_tasks_def task_settles_def Let_def
      dest!: find_SomeD split: option.splits sum.splits)

lemma ids_inv_outer_finally: "ids_inv s \<Longrightarrow> ids_inv (outer_finally p s)"
  by (rule ids_inv_sub[of s])
     (auto simp: ids_inv_def all_tasks_def outer_finally_def
      dest!: find_SomeD split: option.splits)

lemma ids_inv_gate_finally: "ids_inv s \<Longrightarrow> ids_inv (gate_finally p s)"
  by (rule ids_inv_sub[of s])
     (auto simp: ids_inv_def all_tasks_def gate_finally_def run_def Let_def
      dest!: find_SomeD split: option.splits list.splits)

lemma ids_inv_invalidate: "ids_inv s \<Longrightarrow> ids_inv (invalidate T s)"
  by (auto simp: ids_inv_def all_tasks_def invalidate_def)

lemma task_eqI: "promise u = promise t \<Longrightarrow> trackId u = trackId t \<Longrightarrow> u = (t::task)"
  by simp

lemma same_track_same_task:
  assumes "reg_inv s"
    and "u \<in> set (membershipQueue s) \<union> set (looking s) \<union> set (settling s)"
    and "t \<in> set (membershipQueue s) \<union> set (looking s) \<union> set (settling s)"
    and "trackId u = trackId t"
  shows "u = t"
proof -
  have "membershipInFlight s (trackId u) = Some (promise u)"
    and "membershipInFlight s (trackId t) = Some (promise t)"
    using assms(1-3) unfolding reg_inv_def by blast+
  then have "promise u = promise t" using assms(4) by simp
  then show ?thesis using assms(4) by (rule task_eqI)
qed

lemma reg_inv_init: "reg_inv init_resolver"
  by (simp add: reg_inv_def init_resolver_def)

lemma reg_inv_getMembership:
  assumes "reg_inv s"
  shows "reg_inv (snd (getMembership T s))"
proof (cases "membershipResultCache s T = None \<and> membershipInFlight s T = None")
  case False
  then show ?thesis using assms by (auto simp: getMembership_def split: option.splits)
next
  case True
  have other: "trackId t \<noteq> T"
    if "t \<in> set (membershipQueue s) \<union> set (looking s) \<union> set (settling s)" for t
    using assms that True unfolding reg_inv_def by fastforce
  show ?thesis
    using assms True other
    by (auto simp: reg_inv_def getMembership_def enqueueMembership_def run_def Let_def)
qed

lemma reg_inv_task_settles:
  assumes "reg_inv s" and "ids_inv s"
  shows "reg_inv (task_settles p out s)"
proof (cases "find (\<lambda>t. promise t = p) (looking s)")
  case None
  then show ?thesis using assms by (simp add: task_settles_def)
next
  case (Some t)
  then have t: "t \<in> set (looking s)" by (auto dest: find_SomeD)
  have d: "distinct (looking s)" "t \<notin> set (membershipQueue s)"
    using assms(2) t by (auto simp: ids_inv_def all_tasks_def)
  have other: "trackId u \<noteq> trackId t"
    if "u \<in> set (membershipQueue s) \<union> set (remove1 t (looking s))" for u
  proof
    assume "trackId u = trackId t"
    then have "u = t"
      using same_track_same_task[OF assms(1), of u t] that t d by auto
    then show False using that d by auto
  qed
  show ?thesis
    using assms(1) Some t d other
    by (cases out) (auto simp: reg_inv_def task_settles_def Let_def)
qed

lemma reg_inv_outer_finally:
  assumes "reg_inv s" and "ids_inv s"
  shows "reg_inv (outer_finally p s)"
proof (cases "find (\<lambda>t. promise t = p) (settling s)")
  case None
  then show ?thesis using assms by (simp add: outer_finally_def)
next
  case (Some t)
  then have t: "t \<in> set (settling s)" by (auto dest: find_SomeD)
  have d: "distinct (settling s)" "t \<notin> set (membershipQueue s)" "t \<notin> set (looking s)"
    using assms(2) t by (auto simp: ids_inv_def all_tasks_def)
  have other: "trackId u \<noteq> trackId t"
    if "u \<in> set (membershipQueue s) \<union> set (looking s) \<union> set (remove1 t (settling s))" for u
  proof
    assume "trackId u = trackId t"
    then have "u = t"
      using same_track_same_task[OF assms(1), of u t] that t d by auto
    then show False using that d by auto
  qed
  show ?thesis
    using assms(1) Some t d other
    by (auto simp: reg_inv_def outer_finally_def)
qed

lemma reg_inv_gate_finally: "reg_inv s \<Longrightarrow> reg_inv (gate_finally p s)"
  by (auto simp: reg_inv_def gate_finally_def run_def Let_def split: option.splits list.splits)

lemma reg_inv_invalidate: "reg_inv s \<Longrightarrow> reg_inv (invalidate T s)"
  by (auto simp: reg_inv_def invalidate_def)


lemma res_inv_init: "res_inv init_resolver"
  by (simp add: res_inv_def init_resolver_def)

lemma res_inv_getMembership:
  assumes "res_inv s"
  shows "res_inv (snd (getMembership T s))"
proof (cases "membershipResultCache s T = None \<and> membershipInFlight s T = None")
  case False
  then show ?thesis using assms by (auto simp: getMembership_def split: option.splits)
next
  case True
  have fresh: "resolution s (nextPromise s) = None"
    using assms unfolding res_inv_def by (metis less_irrefl)
  have older: "p < Suc (nextPromise s)" if "resolution s p \<noteq> None" for p
    using assms that unfolding res_inv_def by (simp add: less_Suc_eq)
  show ?thesis
    using assms True fresh older
    by (auto simp: res_inv_def getMembership_def enqueueMembership_def run_def Let_def)
qed

lemma res_inv_task_settles:
  assumes "res_inv s" and "ids_inv s"
  shows "res_inv (task_settles p out s)"
proof (cases "find (\<lambda>t. promise t = p) (looking s)")
  case None
  then show ?thesis using assms by (simp add: task_settles_def)
next
  case (Some t)
  then have t: "t \<in> set (looking s)" "promise t = p" by (auto dest: find_SomeD)
  have lt: "p < nextPromise s"
    using assms(2) t by (auto simp: ids_inv_def all_tasks_def)
  have d: "distinct (looking s)" "t \<notin> set (membershipQueue s)"
    using assms(2) t by (auto simp: ids_inv_def all_tasks_def)
  have other: "promise u \<noteq> p"
    if "u \<in> set (membershipQueue s) \<union> set (remove1 t (looking s))" for u
  proof
    assume "promise u = p"
    moreover have "u \<in> set (all_tasks s)" "t \<in> set (all_tasks s)"
      using that t d by (auto simp: all_tasks_def dest: notin_set_remove1)
    ultimately have "u = t" using assms(2) t(2) unfolding ids_inv_def by blast
    then show False using that d by auto
  qed
  have n: "nextPromise (task_settles p out s) = nextPromise s"
    by (cases out) (simp_all add: task_settles_def Let_def split: option.splits)
  have q: "membershipQueue (task_settles p out s) = membershipQueue s"
    "looking (task_settles p out s) = remove1 t (looking s)"
    "resolution (task_settles p out s) = (resolution s)(p \<mapsto> out)"
    using Some by (cases out; simp add: task_settles_def)+
  have a: "\<forall>p'. resolution (task_settles p out s) p' \<noteq> None \<longrightarrow> p' < nextPromise (task_settles p out s)"
    using assms(1) lt unfolding res_inv_def n q by auto
  have b: "\<forall>u \<in> set (membershipQueue (task_settles p out s)) \<union> set (looking (task_settles p out s)).
             resolution (task_settles p out s) (promise u) = None"
  proof
    fix u assume u: "u \<in> set (membershipQueue (task_settles p out s)) \<union> set (looking (task_settles p out s))"
    then have u': "u \<in> set (membershipQueue s) \<union> set (remove1 t (looking s))" by (simp add: q)
    then have "promise u \<noteq> p" by (rule other)
    moreover have "u \<in> set (membershipQueue s) \<union> set (looking s)"
      using u' by (auto dest: notin_set_remove1)
    ultimately show "resolution (task_settles p out s) (promise u) = None"
      using assms(1) unfolding res_inv_def q by auto
  qed
  show ?thesis unfolding res_inv_def using a b by blast
qed

lemma res_inv_outer_finally: "res_inv s \<Longrightarrow> res_inv (outer_finally p s)"
  by (auto simp: res_inv_def outer_finally_def split: option.splits)

lemma res_inv_gate_finally: "res_inv s \<Longrightarrow> res_inv (gate_finally p s)"
  by (auto simp: res_inv_def gate_finally_def run_def Let_def split: option.splits list.splits)

lemma res_inv_invalidate: "res_inv s \<Longrightarrow> res_inv (invalidate T s)"
  by (auto simp: res_inv_def invalidate_def)

lemma inv_init: "inv init_resolver"
  by (simp add: inv_def gate_inv_init ids_inv_init reg_inv_init res_inv_init)

lemma inv_step: "inv s \<Longrightarrow> inv (step e s)"
  by (cases e)
     (simp_all add: inv_def gate_inv_getMembership gate_inv_task_settles gate_inv_outer_finally
       gate_inv_gate_finally gate_inv_invalidate ids_inv_getMembership ids_inv_task_settles
       ids_inv_outer_finally ids_inv_gate_finally ids_inv_invalidate reg_inv_getMembership
       reg_inv_task_settles reg_inv_outer_finally reg_inv_gate_finally reg_inv_invalidate
       res_inv_getMembership res_inv_task_settles res_inv_outer_finally res_inv_gate_finally
       res_inv_invalidate)

lemma inv_exec: "inv s \<Longrightarrow> inv (exec es s)"
  unfolding exec_def by (induction es arbitrary: s) (simp_all add: inv_step)

lemma inv_reachable: "inv (exec es init_resolver)"
  by (rule inv_exec) (rule inv_init)

lemma find_by_key:
  "t \<in> set xs \<Longrightarrow> (\<forall>u \<in> set xs. f u = f t \<longrightarrow> u = t) \<Longrightarrow> find (\<lambda>u. f u = f t) xs = Some t"
  by (induction xs) auto

lemma find_promise:
  assumes "ids_inv s" and "set xs \<subseteq> set (all_tasks s)" and "t \<in> set xs"
  shows "find (\<lambda>u. promise u = promise t) xs = Some t"
proof (rule find_by_key[OF assms(3)], intro ballI impI)
  fix u assume "u \<in> set xs" "promise u = promise t"
  then show "u = t" using assms unfolding ids_inv_def by (meson subsetD)
qed

section \<open>Proofs: the concurrency gate\<close>

lemma releasing_after_settle:
  assumes "inv s" and "t \<in> set (looking s)"
  shows "find (\<lambda>u. promise u = promise t)
           (releasing (outer_finally (promise t) (task_settles (promise t) out s))) = Some t"
proof -
  let ?s1 = "task_settles (promise t) out s"
  let ?s2 = "outer_finally (promise t) ?s1"
  have ids: "ids_inv s" using assms(1) by (simp add: inv_def)
  have f1: "find (\<lambda>u. promise u = promise t) (looking s) = Some t"
    using find_promise[OF ids _ assms(2)] by (auto simp: all_tasks_def)
  have ids1: "ids_inv ?s1" using ids by (rule ids_inv_task_settles)
  have in1: "t \<in> set (settling ?s1)"
    using f1 by (cases out) (simp_all add: task_settles_def)
  have f2: "find (\<lambda>u. promise u = promise t) (settling ?s1) = Some t"
    using find_promise[OF ids1 _ in1] by (auto simp: all_tasks_def)
  have ids2: "ids_inv ?s2" using ids1 by (rule ids_inv_outer_finally)
  have in2: "t \<in> set (releasing ?s2)"
    using f2 by (simp add: outer_finally_def)
  show ?thesis
    using find_promise[OF ids2 _ in2] by (auto simp: all_tasks_def)
qed


lemma gate_finally_effect:
  assumes "find (\<lambda>u. promise u = p) (releasing s) = Some t"
  shows "case membershipQueue s of
           [] \<Rightarrow> membershipQueue (gate_finally p s) = [] \<and>
                 looking (gate_finally p s) = looking s \<and>
                 lookups (gate_finally p s) = lookups s \<and>
                 inFlightCount (gate_finally p s) = inFlightCount s - 1
         | next # rest \<Rightarrow> membershipQueue (gate_finally p s) = rest \<and>
                 looking (gate_finally p s) = looking s @ [next] \<and>
                 lookups (gate_finally p s) = lookups s @ [trackId next] \<and>
                 inFlightCount (gate_finally p s) = inFlightCount s"
  using assms by (simp add: gate_finally_def run_def split: list.splits)

lemma settle_then_release:
  assumes "inv s" and "t \<in> set (looking s)"
  shows "case membershipQueue s of
           [] \<Rightarrow> membershipQueue (gate_finally (promise t) (outer_finally (promise t) (task_settles (promise t) out s))) = [] \<and>
                 looking (gate_finally (promise t) (outer_finally (promise t) (task_settles (promise t) out s))) = remove1 t (looking s) \<and>
                 inFlightCount (gate_finally (promise t) (outer_finally (promise t) (task_settles (promise t) out s))) = inFlightCount s - 1
         | next # rest \<Rightarrow>
                 membershipQueue (gate_finally (promise t) (outer_finally (promise t) (task_settles (promise t) out s))) = rest \<and>
                 looking (gate_finally (promise t) (outer_finally (promise t) (task_settles (promise t) out s))) = remove1 t (looking s) @ [next] \<and>
                 inFlightCount (gate_finally (promise t) (outer_finally (promise t) (task_settles (promise t) out s))) = inFlightCount s"
proof -
  let ?s1 = "task_settles (promise t) out s"
  let ?s2 = "outer_finally (promise t) ?s1"
  have ids: "ids_inv s" using assms(1) by (simp add: inv_def)
  have f1: "find (\<lambda>u. promise u = promise t) (looking s) = Some t"
    using find_promise[OF ids _ assms(2)] by (auto simp: all_tasks_def)
  have e1: "membershipQueue ?s1 = membershipQueue s \<and> looking ?s1 = remove1 t (looking s)
            \<and> inFlightCount ?s1 = inFlightCount s"
    using f1 by (cases out) (simp_all add: task_settles_def)
  have e2: "membershipQueue ?s2 = membershipQueue ?s1 \<and> looking ?s2 = looking ?s1
            \<and> inFlightCount ?s2 = inFlightCount ?s1"
    by (simp add: outer_finally_def split: option.splits)
  show ?thesis
    using gate_finally_effect[OF releasing_after_settle[OF assms, of out]] e1 e2
    by (simp split: list.splits)
qed

text \<open>
  C2. In every state the resolver can reach, at most five lookups are running and the
  counter equals the number of started tasks whose slot is not released. The queue is
  non-empty only while the gate is full, so a request arriving then is appended behind
  the waiting ones and starts no lookup. When a running task settles, with a result or an
  error, and its two \<^verbatim>\<open>finally\<close> reactions have run, the head of the queue, and only it,
  has been started; with an empty queue the counter has gone down by one.
\<close>

theorem gate_bounded_fifo:
  "s = exec es init_resolver \<Longrightarrow>
     (length (looking s) \<le> 5 \<and> int (length (active s)) = inFlightCount s
        \<and> inFlightCount s \<le> MAX_CONCURRENT_MEMBERSHIP) \<and>
     (membershipQueue s \<noteq> [] \<longrightarrow> \<not> inFlightCount s < MAX_CONCURRENT_MEMBERSHIP) \<and>
     (\<not> inFlightCount s < MAX_CONCURRENT_MEMBERSHIP \<longrightarrow>
        membershipQueue (enqueueMembership t s) = membershipQueue s @ [t] \<and>
        looking (enqueueMembership t s) = looking s \<and>
        lookups (enqueueMembership t s) = lookups s) \<and>
     (\<forall>u \<in> set (looking s). \<forall>out.
        (case membershipQueue s of
           [] \<Rightarrow>
             membershipQueue (gate_finally (promise u) (outer_finally (promise u) (task_settles (promise u) out s))) = [] \<and>
             looking (gate_finally (promise u) (outer_finally (promise u) (task_settles (promise u) out s))) = remove1 u (looking s) \<and>
             inFlightCount (gate_finally (promise u) (outer_finally (promise u) (task_settles (promise u) out s))) = inFlightCount s - 1
         | next # rest \<Rightarrow>
             membershipQueue (gate_finally (promise u) (outer_finally (promise u) (task_settles (promise u) out s))) = rest \<and>
             looking (gate_finally (promise u) (outer_finally (promise u) (task_settles (promise u) out s))) = remove1 u (looking s) @ [next] \<and>
             inFlightCount (gate_finally (promise u) (outer_finally (promise u) (task_settles (promise u) out s))) = inFlightCount s))"
proof -
  assume s: "s = exec es init_resolver"
  then have i: "inv s" by (simp add: inv_reachable)
  then have g: "gate_inv s" by (simp add: inv_def)
  have a: "length (looking s) \<le> 5 \<and> int (length (active s)) = inFlightCount s
           \<and> inFlightCount s \<le> MAX_CONCURRENT_MEMBERSHIP"
    using g by (auto simp: gate_inv_def active_def MAX_CONCURRENT_MEMBERSHIP_def)
  have b: "membershipQueue s \<noteq> [] \<longrightarrow> \<not> inFlightCount s < MAX_CONCURRENT_MEMBERSHIP"
    using g by (auto simp: gate_inv_def)
  have c: "\<not> inFlightCount s < MAX_CONCURRENT_MEMBERSHIP \<longrightarrow>
        membershipQueue (enqueueMembership t s) = membershipQueue s @ [t] \<and>
        looking (enqueueMembership t s) = looking s \<and>
        lookups (enqueueMembership t s) = lookups s"
    by (simp add: enqueueMembership_def)
  show ?thesis
    using a b c settle_then_release[OF i] by blast
qed

lemmas resolver_defs = exec_def getMembership_def enqueueMembership_def run_def task_settles_def
  outer_finally_def gate_finally_def invalidate_def init_resolver_def MAX_CONCURRENT_MEMBERSHIP_def

lemma burst_state:
  "looking (exec burst init_resolver) =
     [\<lparr>promise = 0, trackId = ''a''\<rparr>, \<lparr>promise = 1, trackId = ''b''\<rparr>, \<lparr>promise = 2, trackId = ''c''\<rparr>,
      \<lparr>promise = 3, trackId = ''d''\<rparr>, \<lparr>promise = 4, trackId = ''e''\<rparr>]"
  "membershipQueue (exec burst init_resolver) = [\<lparr>promise = 5, trackId = ''f''\<rparr>, \<lparr>promise = 6, trackId = ''g''\<rparr>]"
  "inFlightCount (exec burst init_resolver) = 5"
  by (simp_all add: burst_def resolver_defs Let_def)

theorem gate_bounded_fifo_witness:
  "membershipQueue (exec burst init_resolver) \<noteq> [] \<and>
   \<not> inFlightCount (exec burst init_resolver) < MAX_CONCURRENT_MEMBERSHIP \<and>
   \<lparr>promise = 0, trackId = ''a''\<rparr> \<in> set (looking (exec burst init_resolver)) \<and>
   length (looking (exec burst init_resolver)) \<le> 5 \<and>
   membershipQueue (enqueueMembership \<lparr>promise = 7, trackId = ''h''\<rparr> (exec burst init_resolver)) =
     [\<lparr>promise = 5, trackId = ''f''\<rparr>, \<lparr>promise = 6, trackId = ''g''\<rparr>, \<lparr>promise = 7, trackId = ''h''\<rparr>] \<and>
   membershipQueue (gate_finally 0 (outer_finally 0 (task_settles 0 (Inl HostError) (exec burst init_resolver)))) =
     [\<lparr>promise = 6, trackId = ''g''\<rparr>] \<and>
   looking (gate_finally 0 (outer_finally 0 (task_settles 0 (Inl HostError) (exec burst init_resolver)))) =
     [\<lparr>promise = 1, trackId = ''b''\<rparr>, \<lparr>promise = 2, trackId = ''c''\<rparr>, \<lparr>promise = 3, trackId = ''d''\<rparr>,
      \<lparr>promise = 4, trackId = ''e''\<rparr>, \<lparr>promise = 5, trackId = ''f''\<rparr>]"
  using gate_bounded_fifo[of "exec burst init_resolver" burst "\<lparr>promise = 7, trackId = ''h''\<rparr>"]
  by (simp add: burst_state MAX_CONCURRENT_MEMBERSHIP_def)

section \<open>Proofs: the playlist-add operation\<close>

lemma recent_of_remember:
  "recent_of (rememberRecentlyAdded tid pid ov) tid = insert pid (recent_of ov tid)"
  by (simp add: recent_of_def rememberRecentlyAdded_def split: option.splits)

lemma add_each_keeps:
  "P \<in> recent_of (recent s) sid \<Longrightarrow>
   P \<in> recent_of (recent (fst (add_each sid throws sel (s, a, b)))) sid"
  by (induction sel arbitrary: s a b) (simp_all add: recent_of_remember Let_def)

lemma add_each_records:
  "P \<in> set sel \<Longrightarrow> \<not> throws P \<Longrightarrow>
   P \<in> recent_of (recent (fst (add_each sid throws sel (s, a, b)))) sid"
proof (induction sel arbitrary: s a b)
  case Nil
  then show ?case by simp
next
  case (Cons Q sel)
  show ?case
  proof (cases "P = Q")
    case True
    then show ?thesis
      using Cons.prems(2) by (simp add: Let_def add_each_keeps recent_of_remember)
  next
    case False
    then show ?thesis
      using Cons by (simp add: Let_def)
  qed
qed

lemma add_each_membership:
  "membership (fst (add_each sid throws sel (s, a, b))) = membership s"
  by (induction sel arbitrary: s a b) (simp_all add: Let_def)

lemma addToSelectedPlaylists_ran:
  assumes "selected \<noteq> []" and "song_title sg \<noteq> TitleRejects"
  shows "membership (addToSelectedPlaylists sg selected throws s) = invalidate (song_id sg) (membership s)"
    and "recent (addToSelectedPlaylists sg selected throws s)
         = recent (fst (add_each (song_id sg) throws selected (s, 0, 0)))"
  using assms
  by (cases "song_title sg";
      simp add: addToSelectedPlaylists_def Let_def showNotification_def add_each_membership
        split: prod.splits;
      metis add_each_membership fst_conv)+


lemma cached_123_state:
  "membershipResultCache cached_123 ''123'' = Some empty_result"
  "membershipInFlight cached_123 ''123'' = None"
  "nextPromise cached_123 = 1"
  "inFlightCount cached_123 = 0"
  by (simp_all add: cached_123_def resolver_defs Let_def)

lemma in_flight_123_state:
  "membershipInFlight (exec [GetMembership ''123''] init_resolver) ''123'' = Some 0"
  "membershipResultCache (exec [GetMembership ''123''] init_resolver) ''123'' = None"
  "lookups (exec [GetMembership ''123''] init_resolver) = [''123'']"
  by (simp_all add: resolver_defs Let_def)

text \<open>
  C8. With an empty selection the operation only shows the error notification: no host
  call is made, the overlay and the resolver (its cache included) are left as they were.
\<close>

theorem zero_selection_rejected:
  "addToSelectedPlaylists sg [] throws s =
     s\<lparr>notifications := notifications s @ [(''Please select at least one playlist'', ''error'')]\<rparr>
   \<and> host_calls (addToSelectedPlaylists sg [] throws s) = host_calls s
   \<and> recent (addToSelectedPlaylists sg [] throws s) = recent s
   \<and> membership (addToSelectedPlaylists sg [] throws s) = membership s"
  by (simp add: addToSelectedPlaylists_def showNotification_def)

text \<open>
  C3, as stated, fails when \<^verbatim>\<open>song.title()\<close> rejects: the \<^verbatim>\<open>catch\<close> around the whole body
  reports the error and returns, so with a non-empty selection the operation completes
  and the cached result of the track is still there.
\<close>

theorem add_keeps_cache_when_title_rejects:
  "[''B''] \<noteq> [] \<and>
   membershipResultCache
     (membership (addToSelectedPlaylists \<lparr>song_id = ''123'', song_title = TitleRejects\<rparr> [''B'']
        throws_never plugin_123)) ''123'' = Some empty_result"
  by (simp add: addToSelectedPlaylists_def showNotification_def plugin_123_def cached_123_state)

text \<open>
  C3, amended. Let the selection be not empty. When \<^verbatim>\<open>song.title()\<close> does not reject, then
  after the operation the cache has no entry for the track, so the next
  \<^verbatim>\<open>getMembership\<close> for it is not answered from the cache: it joins the computation in
  flight for the track if there is one, and otherwise starts a new one with a new promise;
  and every playlist of the selection whose host call did not throw is in the overlay set
  of the track. When \<^verbatim>\<open>song.title()\<close> rejects, no host call is made and the resolver and
  the overlay are left as they were.
\<close>

theorem add_invalidates_and_records:
  "selected \<noteq> [] \<Longrightarrow>
     (song_title sg = TitleRejects \<longrightarrow>
        membership (addToSelectedPlaylists sg selected throws s) = membership s \<and>
        recent (addToSelectedPlaylists sg selected throws s) = recent s \<and>
        host_calls (addToSelectedPlaylists sg selected throws s) = host_calls s) \<and>
     (song_title sg \<noteq> TitleRejects \<longrightarrow>
        membershipResultCache (membership (addToSelectedPlaylists sg selected throws s)) (song_id sg) = None \<and>
        (\<forall>P \<in> set selected. \<not> throws P \<longrightarrow>
           P \<in> recent_of (recent (addToSelectedPlaylists sg selected throws s)) (song_id sg)) \<and>
        (\<forall>r. fst (getMembership (song_id sg) (membership (addToSelectedPlaylists sg selected throws s))) \<noteq> Cached r) \<and>
        (\<forall>p. membershipInFlight (membership s) (song_id sg) = Some p \<longrightarrow>
           getMembership (song_id sg) (membership (addToSelectedPlaylists sg selected throws s))
             = (Pending p, membership (addToSelectedPlaylists sg selected throws s))) \<and>
        (membershipInFlight (membership s) (song_id sg) = None \<longrightarrow>
           fst (getMembership (song_id sg) (membership (addToSelectedPlaylists sg selected throws s)))
             = Pending (nextPromise (membership s)) \<and>
           \<lparr>promise = nextPromise (membership s), trackId = song_id sg\<rparr>
             \<in> set (all_tasks (snd (getMembership (song_id sg)
                    (membership (addToSelectedPlaylists sg selected throws s)))))))"
proof (cases "song_title sg = TitleRejects")
  case True
  assume "selected \<noteq> []"
  then show ?thesis using True by (simp add: addToSelectedPlaylists_def showNotification_def)
next
  case tt: False
  assume sel: "selected \<noteq> []"
  let ?s' = "addToSelectedPlaylists sg selected throws s"
  have m: "membership ?s' = invalidate (song_id sg) (membership s)"
    using sel tt by (rule addToSelectedPlaylists_ran(1))
  have r: "recent ?s' = recent (fst (add_each (song_id sg) throws selected (s, 0, 0)))"
    using sel tt by (rule addToSelectedPlaylists_ran(2))
  have a: "membershipResultCache (membership ?s') (song_id sg) = None"
    by (simp add: m invalidate_def)
  have b: "\<forall>P \<in> set selected. \<not> throws P \<longrightarrow> P \<in> recent_of (recent ?s') (song_id sg)"
    by (simp add: r add_each_records)
  have c: "\<forall>r. fst (getMembership (song_id sg) (membership ?s')) \<noteq> Cached r"
    using a by (simp add: getMembership_def Let_def split: option.splits)
  have d: "\<forall>p. membershipInFlight (membership s) (song_id sg) = Some p \<longrightarrow>
        getMembership (song_id sg) (membership ?s') = (Pending p, membership ?s')"
    using a by (simp add: m getMembership_def invalidate_def)
  have e: "membershipInFlight (membership s) (song_id sg) = None \<longrightarrow>
        fst (getMembership (song_id sg) (membership ?s')) = Pending (nextPromise (membership s)) \<and>
        \<lparr>promise = nextPromise (membership s), trackId = song_id sg\<rparr>
          \<in> set (all_tasks (snd (getMembership (song_id sg) (membership ?s'))))"
    by (simp add: m getMembership_def invalidate_def enqueueMembership_def run_def all_tasks_def Let_def)
  show ?thesis using tt a b c d e by blast
qed

theorem add_invalidates_and_records_witness:
  "[''B'', ''C''] \<noteq> [] \<and> TitleResolves ''Song'' \<noteq> TitleRejects \<and>
   ''B'' \<in> set [''B'', ''C''] \<and> \<not> throws_on_C ''B'' \<and>
   membershipInFlight (membership plugin_123) ''123'' = None \<and>
   membershipResultCache (membership plugin_123) ''123'' = Some empty_result \<and>
   membershipResultCache (membership (addToSelectedPlaylists
      \<lparr>song_id = ''123'', song_title = TitleResolves ''Song''\<rparr> [''B'', ''C''] throws_on_C plugin_123)) ''123'' = None \<and>
   ''B'' \<in> recent_of (recent (addToSelectedPlaylists
      \<lparr>song_id = ''123'', song_title = TitleResolves ''Song''\<rparr> [''B'', ''C''] throws_on_C plugin_123)) ''123'' \<and>
   fst (getMembership ''123'' (membership (addToSelectedPlaylists
      \<lparr>song_id = ''123'', song_title = TitleResolves ''Song''\<rparr> [''B'', ''C''] throws_on_C plugin_123))) = Pending 1 \<and>
   membershipInFlight (membership plugin_123_in_flight) ''123'' = Some 0 \<and>
   fst (getMembership ''123'' (membership (addToSelectedPlaylists
      \<lparr>song_id = ''123'', song_title = TitleResolves ''Song''\<rparr> [''B'', ''C''] throws_on_C plugin_123_in_flight))) = Pending 0 \<and>
   lookups (snd (getMembership ''123'' (membership (addToSelectedPlaylists
      \<lparr>song_id = ''123'', song_title = TitleResolves ''Song''\<rparr> [''B'', ''C''] throws_on_C plugin_123_in_flight)))) = [''123''] \<and>
   host_calls (addToSelectedPlaylists
      \<lparr>song_id = ''123'', song_title = TitleRejects\<rparr> [''B'', ''C''] throws_on_C plugin_123) = []"
  using add_invalidates_and_records[of "[''B'', ''C'']"
      "\<lparr>song_id = ''123'', song_title = TitleResolves ''Song''\<rparr>" throws_on_C plugin_123]
    add_invalidates_and_records[of "[''B'', ''C'']"
      "\<lparr>song_id = ''123'', song_title = TitleResolves ''Song''\<rparr>" throws_on_C plugin_123_in_flight]
    add_invalidates_and_records[of "[''B'', ''C'']"
      "\<lparr>song_id = ''123'', song_title = TitleRejects\<rparr>" throws_on_C plugin_123]
    in_flight_123_state
    addToSelectedPlaylists_ran(1)[of "[''B'', ''C'']"
      "\<lparr>song_id = ''123'', song_title = TitleResolves ''Song''\<rparr>" throws_on_C plugin_123_in_flight]
  by (simp add: throws_on_C_def plugin_123_def cached_123_state plugin_123_in_flight_def
      invalidate_def init_plugin_def)

section \<open>Proofs: the underlying lookup\<close>

lemma pushes_from:
  "pushes env matches i pls = Inr found \<Longrightarrow> (k, ref) \<in> set found \<Longrightarrow>
   \<exists>p. Some p \<in> set pls \<and> ref = playlist_ref p"
proof (induction pls arbitrary: i found)
  case Nil
  then show ?case by simp
next
  case (Cons pl pls)
  then show ?case
    by (cases pl) (fastforce simp: check_playlist_def split: sum.splits option.splits if_splits)+
qed

lemma containing_from:
  assumes "containing env matches pls = Inr refs" and "ref \<in> set refs"
  shows "\<exists>p. Some p \<in> set pls \<and> ref = playlist_ref p"
proof -
  from assms obtain found where f: "pushes env matches 0 pls = Inr found"
    and r: "refs = map snd (sort_key (\<lambda>(i, r). finished env i) found)"
    by (auto simp: containing_def split: sum.splits)
  from r assms(2) obtain k where "(k, ref) \<in> set found" by auto
  from pushes_from[OF f this] show ?thesis .
qed

lemma catch_all_total: "\<exists>r. catch_all x = Inr r"
  by (cases x) (simp_all add: catch_all_def)

lemma lookup_body_flag:
  "lookup_body env matches = Inr r \<Longrightarrow> existsInPlaylists r = (playlists r \<noteq> [])"
  by (auto simp: lookup_body_def empty_result_def Let_def split: option.splits if_splits sum.splits)

lemma catch_all_flag:
  assumes "\<And>r. x = Inr r \<Longrightarrow> existsInPlaylists r = (playlists r \<noteq> [])"
  shows "\<exists>r. catch_all x = Inr r \<and> existsInPlaylists r = (playlists r \<noteq> [])"
  using assms by (cases x) (simp_all add: catch_all_def empty_result_def)

text \<open>
  C9. Both lookups always return a result, and in it the flag is true exactly when the
  list of playlists is not empty.
\<close>

theorem exists_iff_nonempty:
  "(\<exists>r. checkSongInUserPlaylists env songId = Inr r \<and> existsInPlaylists r = (playlists r \<noteq> [])) \<and>
   (\<exists>r. checkSongInUserPlaylistsByMeta env m = Inr r \<and> existsInPlaylists r = (playlists r \<noteq> []))"
  unfolding checkSongInUserPlaylists_def checkSongInUserPlaylistsByMeta_def
  by (intro conjI catch_all_flag lookup_body_flag)


lemmas lookup_defs = checkSongInUserPlaylists_def catch_all_def lookup_body_def owned_by_def
  fallback_def call_helper_def containing_def check_playlist_def raw_list_def playlist_ref_def
  id_matches_def empty_result_def helper_array_def

lemmas example_defs = env_mine_def env_helper_def env_nobody_def env_null_def env_slow_A_def
  env_broken_def env_offline_def playlist_A_def playlist_B_def playlist_X_def items_AX_def
  track_entry_def

lemma lookup_mine:
  "checkSongInUserPlaylists env_mine ''123'' =
     Inr \<lparr>existsInPlaylists = True, playlists = [\<lparr>ref_uuid = ''A'', ref_title = ''Mine''\<rparr>]\<rparr>"
  by (simp add: lookup_defs example_defs)

text \<open>
  A null element in the array of the helper: its callback rejects, so \<^verbatim>\<open>Promise.all\<close>
  rejects and the outer \<^verbatim>\<open>catch\<close> returns the empty result, although the other element
  contains the track.
\<close>

lemma null_element_empties_result:
  "check_playlist env_null (id_matches ''123'') None = Inl TypeError \<and>
   lookup_body env_null (id_matches ''123'') = Inl TypeError \<and>
   checkSongInUserPlaylists env_null ''123'' = Inr empty_result"
  by (simp add: lookup_defs example_defs)

text \<open>The playlists of the result are in the order in which their fetches complete.\<close>

lemma completion_order:
  "checkSongInUserPlaylists env_slow_A ''123'' =
     Inr \<lparr>existsInPlaylists = True, playlists = [playlist_ref playlist_B, playlist_ref playlist_A]\<rparr>"
  by (simp add: lookup_defs example_defs)

text \<open>A fetch that is rejected is caught in its callback: the playlist is left out.\<close>

lemma fetch_errors_swallowed:
  "raw_list env_offline playlist_A = Inl HostError \<and>
   lookup_body env_offline (id_matches ''123'') = Inr empty_result"
  by (simp add: lookup_defs example_defs)

theorem exists_iff_nonempty_witness:
  "checkSongInUserPlaylists env_mine ''123'' =
     Inr \<lparr>existsInPlaylists = True, playlists = [\<lparr>ref_uuid = ''A'', ref_title = ''Mine''\<rparr>]\<rparr> \<and>
   checkSongInUserPlaylists env_nobody ''123'' = Inr \<lparr>existsInPlaylists = False, playlists = []\<rparr>"
  using exists_iff_nonempty[of env_mine "''123''"] exists_iff_nonempty[of env_nobody "''123''"]
  by (simp add: lookup_defs example_defs)

text \<open>
  C4, as stated, fails on the fallback path: the store has no playlist of the current
  user, \<^verbatim>\<open>Playlist.getUserPlaylists\<close> exists, and the array it returns is used as it is. Here
  it holds a playlist created by another user, which ends up in the result.
\<close>

theorem helper_playlists_not_filtered:
  "checkSongInUserPlaylists env_helper ''123'' =
     Inr \<lparr>existsInPlaylists = True, playlists = [playlist_ref playlist_X]\<rparr> \<and>
   getState env_helper = Some \<lparr>current_user_id = Some ''me'', store_playlists = [Some playlist_X]\<rparr> \<and>
   \<not> owned_by ''me'' (Some playlist_X)"
  by (simp add: lookup_defs example_defs)

text \<open>
  C4, amended. When the current user cannot be determined (no id, or an empty one) the
  result is empty, and so it is when reading the store throws. Otherwise, when the store
  holds playlists of type USER created by the current user, every playlist of the result
  is one of them. Only when it holds none, the result is drawn from the array returned by
  \<^verbatim>\<open>Playlist.getUserPlaylists\<close> or \<^verbatim>\<open>Playlist.getMyPlaylists\<close>, whose elements are not
  checked for their creator; with no such helper the result is empty.
\<close>

theorem lookup_sources:
  "checkSongInUserPlaylists env songId = Inr r \<Longrightarrow>
     (case getState env of
        None \<Rightarrow> r = empty_result
      | Some state \<Rightarrow>
         (case current_user_id state of
            None \<Rightarrow> r = empty_result
          | Some uid \<Rightarrow>
             (if uid = [] then r = empty_result
              else if filter (owned_by uid) (store_playlists state) \<noteq> []
              then (\<forall>ref \<in> set (playlists r).
                      \<exists>p. Some p \<in> set (store_playlists state) \<and> owned_by uid (Some p)
                          \<and> ref = playlist_ref p)
              else (\<forall>ref \<in> set (playlists r).
                      \<exists>p. Some p \<in> set (helper_array (helpers env)) \<and> ref = playlist_ref p)
                   \<and> (helpers env = NoHelper \<longrightarrow> r = empty_result))))"
proof -
  assume a: "checkSongInUserPlaylists env songId = Inr r"
  show ?thesis
  proof (cases "getState env")
    case None
    then show ?thesis using a by (simp add: checkSongInUserPlaylists_def catch_all_def lookup_body_def)
  next
    case (Some state)
    show ?thesis
    proof (cases "current_user_id state")
      case None
      then show ?thesis using a Some
        by (simp add: checkSongInUserPlaylists_def catch_all_def lookup_body_def)
    next
      case u: (Some uid)
      show ?thesis
      proof (cases "uid = []")
        case True
        then show ?thesis using a Some u
          by (simp add: checkSongInUserPlaylists_def catch_all_def lookup_body_def)
      next
        case False
        let ?own = "filter (owned_by uid) (store_playlists state)"
        show ?thesis
        proof (cases "?own = []")
          case ne: False
          have r: "r = empty_result \<or> containing env (id_matches songId) ?own = Inr (playlists r)"
            using a Some u False ne
            by (auto simp: checkSongInUserPlaylists_def catch_all_def lookup_body_def Let_def
                split: if_splits sum.splits)
          have "\<exists>p. Some p \<in> set (store_playlists state) \<and> owned_by uid (Some p) \<and> ref = playlist_ref p"
            if "ref \<in> set (playlists r)" for ref
          proof -
            from r that have "containing env (id_matches songId) ?own = Inr (playlists r)"
              by (auto simp: empty_result_def)
            from containing_from[OF this that] show ?thesis by auto
          qed
          then show ?thesis using Some u False ne by simp
        next
          case e: True
          let ?fb = "fallback (helpers env) []"
          have r: "r = empty_result \<or> containing env (id_matches songId) ?fb = Inr (playlists r)"
            using a Some u False e
            by (auto simp: checkSongInUserPlaylists_def catch_all_def lookup_body_def Let_def
                split: if_splits sum.splits)
          have fb: "set ?fb \<subseteq> set (helper_array (helpers env))"
            by (auto simp: fallback_def helper_array_def call_helper_def
                split: playlist_helpers.splits helper_reply.splits)
          have "\<exists>p. Some p \<in> set (helper_array (helpers env)) \<and> ref = playlist_ref p"
            if "ref \<in> set (playlists r)" for ref
          proof -
            from r that have "containing env (id_matches songId) ?fb = Inr (playlists r)"
              by (auto simp: empty_result_def)
            from containing_from[OF this that] fb show ?thesis by auto
          qed
          moreover have "helpers env = NoHelper \<longrightarrow> r = empty_result"
            using a Some u False e
            by (auto simp: checkSongInUserPlaylists_def catch_all_def lookup_body_def Let_def
                fallback_def split: if_splits)
          ultimately show ?thesis using Some u False e by simp
        qed
      qed
    qed
  qed
qed


theorem lookup_sources_witness:
  "checkSongInUserPlaylists env_mine ''123'' =
     Inr \<lparr>existsInPlaylists = True, playlists = [playlist_ref playlist_A]\<rparr> \<and>
   getState env_mine = Some \<lparr>current_user_id = Some ''me'',
     store_playlists = [Some playlist_A, Some playlist_X, None, Some playlist_B]\<rparr> \<and>
   filter (owned_by ''me'') [Some playlist_A, Some playlist_X, None, Some playlist_B]
     = [Some playlist_A, Some playlist_B] \<and>
   owned_by ''me'' (Some playlist_A) \<and>
   checkSongInUserPlaylists env_nobody ''123'' = Inr empty_result \<and>
   checkSongInUserPlaylists env_helper ''123'' =
     Inr \<lparr>existsInPlaylists = True, playlists = [playlist_ref playlist_X]\<rparr> \<and>
   filter (owned_by ''me'') [Some playlist_X] = [] \<and>
   helper_array (helpers env_helper) = [Some playlist_X]"
  using lookup_sources[of env_mine "''123''" "\<lparr>existsInPlaylists = True, playlists = [playlist_ref playlist_A]\<rparr>"]
    lookup_sources[of env_nobody "''123''" empty_result]
    lookup_sources[of env_helper "''123''" "\<lparr>existsInPlaylists = True, playlists = [playlist_ref playlist_X]\<rparr>"]
  by (simp add: lookup_defs example_defs)

lemma checkSong_total: "\<exists>r. checkSongInUserPlaylists env T = Inr r"
  unfolding checkSongInUserPlaylists_def by (rule catch_all_total)

lemma no_rejection_step: "no_rejection s \<Longrightarrow> no_rejection (host_step ev s)"
proof (cases ev)
  case (RowAsks T)
  then show "no_rejection s \<Longrightarrow> ?thesis"
    by (auto simp: no_rejection_def getMembership_def enqueueMembership_def run_def Let_def
        split: option.splits)
next
  case (LookupSettles env p)
  show "no_rejection s \<Longrightarrow> ?thesis"
  proof (cases "find (\<lambda>t. promise t = p) (looking s)")
    case None
    then show "no_rejection s \<Longrightarrow> ?thesis" using LookupSettles by (simp add: lookup_settles_def)
  next
    case (Some t)
    obtain r where r: "checkSongInUserPlaylists env (trackId t) = Inr r"
      using checkSong_total by blast
    show "no_rejection s \<Longrightarrow> ?thesis"
      using LookupSettles Some r
      by (auto simp: no_rejection_def lookup_settles_def task_settles_def)
  qed
next
  case (InFlightDeleted p)
  then show "no_rejection s \<Longrightarrow> ?thesis"
    by (auto simp: no_rejection_def outer_finally_def split: option.splits)
next
  case (SlotReleased p)
  then show "no_rejection s \<Longrightarrow> ?thesis"
    by (auto simp: no_rejection_def gate_finally_def run_def Let_def split: option.splits list.splits)
next
  case (CacheDeleted T)
  then show "no_rejection s \<Longrightarrow> ?thesis"
    by (auto simp: no_rejection_def invalidate_def)
qed

lemma no_rejection_exec: "no_rejection s \<Longrightarrow> no_rejection (host_exec es s)"
  unfolding host_exec_def by (induction es arbitrary: s) (simp_all add: no_rejection_step)

text \<open>
  C10. \<^verbatim>\<open>checkSongInUserPlaylists\<close> always returns a result, never an error. So in every
  run of the resolver with this lookup as its task no promise is ever rejected, and the
  reactions attached in \<^verbatim>\<open>processTrackRow\<close> never reach the \<^verbatim>\<open>.catch\<close> handler: nothing is
  reported.
\<close>

theorem membership_never_rejects:
  "(\<exists>r. checkSongInUserPlaylists env T = Inr r) \<and>
   (\<forall>q. \<exists>v. resolution (host_exec es init_resolver) q = None
              \<or> resolution (host_exec es init_resolver) q = Some (Inr v)) \<and>
   reported (membership_settled node (checkSongInUserPlaylists env T) pg) = reported pg"
proof -
  obtain r where r: "checkSongInUserPlaylists env T = Inr r"
    using checkSong_total by blast
  have "no_rejection (host_exec es init_resolver)"
    by (rule no_rejection_exec) (simp add: no_rejection_def init_resolver_def)
  then have nr: "resolution (host_exec es init_resolver) q \<noteq> Some (Inl e)" for q e
    by (simp add: no_rejection_def)
  have "\<exists>v. resolution (host_exec es init_resolver) q = None
              \<or> resolution (host_exec es init_resolver) q = Some (Inr v)" for q
  proof (cases "resolution (host_exec es init_resolver) q")
    case None
    then show ?thesis by simp
  next
    case (Some a)
    then show ?thesis using nr[of q] by (cases a) auto
  qed
  moreover have "reported (membership_settled node (checkSongInUserPlaylists env T) pg) = reported pg"
    by (simp add: r membership_settled_def split: option.splits)
  ultimately show ?thesis using r by blast
qed


theorem membership_never_rejects_witness:
  "resolution (host_exec [RowAsks ''123'', LookupSettles env_mine 0] init_resolver) 0 =
     Some (Inr \<lparr>existsInPlaylists = True, playlists = [\<lparr>ref_uuid = ''A'', ref_title = ''Mine''\<rparr>]\<rparr>) \<and>
   membershipResultCache (host_exec [RowAsks ''123'', LookupSettles env_mine 0] init_resolver) ''123'' =
     Some \<lparr>existsInPlaylists = True, playlists = [\<lparr>ref_uuid = ''A'', ref_title = ''Mine''\<rparr>]\<rparr>"
  using membership_never_rejects[of env_mine "''123''" "[RowAsks ''123'', LookupSettles env_mine 0]"]
    lookup_mine
  by (simp add: host_exec_def lookup_settles_def resolver_defs Let_def)

section \<open>Proofs: the row pipeline\<close>

lemma marked_mark: "marked (mark r)"
  by (simp add: marked_def mark_def)

lemma marked_annotate: "marked r \<Longrightarrow> marked (annotateRowWithMembership r res)"
  by (simp add: marked_def annotateRowWithMembership_def)

lemma processTrackRow_marked:
  "dom pg node = Some host \<Longrightarrow> marked host \<Longrightarrow> processTrackRow node pg = pg"
  by (simp add: processTrackRow_def)

lemma processTrackRow_marks:
  "dom pg node = Some host \<Longrightarrow> \<exists>host1. dom (processTrackRow node pg) node = Some host1 \<and> marked host1"
  by (auto simp: processTrackRow_def marked_mark Let_def split: option.splits prod.splits)

lemma processTrackRow_counts:
  "extractions (processTrackRow node pg) \<le> extractions pg + 1 \<and>
   length (membership_calls (processTrackRow node pg)) \<le> length (membership_calls pg) + 1"
  by (auto simp: processTrackRow_def Let_def split: option.splits prod.splits)

lemma processTrackRow_no_id:
  "dom pg node = Some host \<Longrightarrow> getTrackIdFromRow host = None \<Longrightarrow>
   membership_calls (processTrackRow node pg) = membership_calls pg \<and>
   page_resolver (processTrackRow node pg) = page_resolver pg \<and>
   waiting (processTrackRow node pg) = waiting pg"
  by (auto simp: processTrackRow_def Let_def)

lemma membership_settled_keeps_mark:
  "dom pg node = Some host \<Longrightarrow> marked host \<Longrightarrow>
   \<exists>host1. dom (membership_settled node out pg) node = Some host1 \<and> marked host1"
  by (cases out) (auto simp: membership_settled_def marked_annotate)

text \<open>
  C6. Processing a row marks it, with or without an id. A marked row is left alone: the
  second invocation changes nothing at all, so there is at most one extraction and at
  most one call of the resolver for the row, also after the reply has annotated the row.
  For a row without an id the resolver is not called.
\<close>

theorem row_processed_once:
  "dom pg node = Some host \<Longrightarrow>
     (\<exists>host1. dom (processTrackRow node pg) node = Some host1 \<and> marked host1) \<and>
     processTrackRow node (processTrackRow node pg) = processTrackRow node pg \<and>
     processTrackRow node (membership_settled node out (processTrackRow node pg))
       = membership_settled node out (processTrackRow node pg) \<and>
     extractions (processTrackRow node (processTrackRow node pg)) \<le> extractions pg + 1 \<and>
     length (membership_calls (processTrackRow node (processTrackRow node pg)))
       \<le> length (membership_calls pg) + 1 \<and>
     (marked host \<longrightarrow> processTrackRow node pg = pg) \<and>
     (\<not> marked host \<longrightarrow> extractions (processTrackRow node pg) = extractions pg + 1) \<and>
     (getTrackIdFromRow host = None \<longrightarrow>
        membership_calls (processTrackRow node pg) = membership_calls pg \<and>
        page_resolver (processTrackRow node pg) = page_resolver pg)"
proof -
  assume h: "dom pg node = Some host"
  let ?pg1 = "processTrackRow node pg"
  obtain host1 where h1: "dom ?pg1 node = Some host1" "marked host1"
    using processTrackRow_marks[OF h] by blast
  have twice: "processTrackRow node ?pg1 = ?pg1"
    using h1 by (rule processTrackRow_marked)
  obtain host2 where h2: "dom (membership_settled node out ?pg1) node = Some host2" "marked host2"
    using membership_settled_keeps_mark[OF h1] by blast
  have after: "processTrackRow node (membership_settled node out ?pg1) = membership_settled node out ?pg1"
    using h2 by (rule processTrackRow_marked)
  have ex: "\<not> marked host \<longrightarrow> extractions ?pg1 = extractions pg + 1"
    using h by (auto simp: processTrackRow_def Let_def split: option.splits prod.splits)
  show ?thesis
    using h1 twice after processTrackRow_counts[of node pg] processTrackRow_marked[OF h]
      processTrackRow_no_id[OF h] ex
    by auto
qed


lemmas row_defs = getTrackIdFromRow_def by_link_def link_to_def truthy_def attrCandidates_def
  is_digit_def code_def

lemma extraction_examples:
  "getTrackIdFromRow row_123 = Some ''123''"
  "getTrackIdFromRow row_plain = None"
  "getTrackIdFromRow row_linked = Some ''4567''"
  by (simp_all add: row_defs row_123_def row_plain_def row_linked_def)

lemma unmarked_examples: "\<not> marked row_123" "\<not> marked row_plain" "marked (mark r)"
  by (simp_all add: marked_def mark_def row_123_def row_plain_def)

theorem row_processed_once_witness:
  "dom page_2 0 = Some row_123 \<and> \<not> marked row_123 \<and>
   extractions (processTrackRow 0 (processTrackRow 0 page_2)) = 1 \<and>
   membership_calls (processTrackRow 0 (processTrackRow 0 page_2)) = [''123''] \<and>
   dom page_2 1 = Some row_plain \<and> getTrackIdFromRow row_plain = None \<and>
   extractions (processTrackRow 1 (processTrackRow 1 page_2)) = 1 \<and>
   membership_calls (processTrackRow 1 (processTrackRow 1 page_2)) = [] \<and>
   lookups (page_resolver (processTrackRow 1 (processTrackRow 1 page_2))) = [] \<and>
   dom (processTrackRow 0 page_2) 0 = Some (mark row_123) \<and> marked (mark row_123) \<and>
   processTrackRow 0 (processTrackRow 0 page_2) = processTrackRow 0 page_2"
  using row_processed_once[of page_2 0 row_123 "Inr empty_result"]
    row_processed_once[of page_2 1 row_plain "Inr empty_result"]
    row_processed_once[of "processTrackRow 0 page_2" 0 "mark row_123" "Inr empty_result"]
  by (simp add: extraction_examples unmarked_examples page_2_def processTrackRow_def
      getMembership_def enqueueMembership_def run_def init_resolver_def
      MAX_CONCURRENT_MEMBERSHIP_def Let_def)

section \<open>Proofs: the recently-added overlay\<close>


























section \<open>Proofs: cache coherence, fan-in and failed lookups\<close>

lemma inv_parts:
  assumes "inv s"
  shows "gate_inv s" "ids_inv s" "reg_inv s" "res_inv s"
  using assms by (simp_all add: inv_def)

lemma looking_registered:
  assumes "reg_inv s" and "t \<in> set (looking s)"
  shows "membershipInFlight s (trackId t) = Some (promise t)"
    and "membershipResultCache s (trackId t) = None"
  using assms unfolding reg_inv_def by blast+

lemma queued_registered:
  assumes "reg_inv s" and "t \<in> set (membershipQueue s)"
  shows "membershipInFlight s (trackId t) = Some (promise t)"
    and "membershipResultCache s (trackId t) = None"
  using assms unfolding reg_inv_def by blast+

lemma potential_getMembership:
  assumes "inv s"
  shows "lookup_count T (snd (getMembership U s)) + remaining T (snd (getMembership U s))
         \<le> lookup_count T s + remaining T s"
proof (cases "membershipResultCache s U = None \<and> membershipInFlight s U = None")
  case False
  then show ?thesis by (auto simp: getMembership_def split: option.splits)
next
  case True
  have none: "\<not> (\<exists>t \<in> set (looking s). trackId t = U)"
    using looking_registered(1)[OF inv_parts(3)[OF assms]] True by fastforce
  show ?thesis
  proof (cases "inFlightCount s < MAX_CONCURRENT_MEMBERSHIP")
    case False
    then show ?thesis using True
      by (simp add: getMembership_def enqueueMembership_def lookup_count_def remaining_def Let_def)
  next
    case gate: True
    show ?thesis
    proof (cases "U = T")
      case True
      then show ?thesis using \<open>membershipResultCache s U = None \<and> membershipInFlight s U = None\<close> gate none
        by (simp add: getMembership_def enqueueMembership_def run_def lookup_count_def
            remaining_def Let_def)
    next
      case False
      then show ?thesis using \<open>membershipResultCache s U = None \<and> membershipInFlight s U = None\<close> gate
        by (simp add: getMembership_def enqueueMembership_def run_def lookup_count_def
            remaining_def Let_def)
    qed
  qed
qed

lemma potential_task_settles:
  assumes "inv s"
  shows "lookup_count T (task_settles p (Inr r) s) + remaining T (task_settles p (Inr r) s)
         \<le> lookup_count T s + remaining T s"
proof (cases "find (\<lambda>t. promise t = p) (looking s)")
  case None
  then show ?thesis by (simp add: task_settles_def)
next
  case (Some t)
  then have t: "t \<in> set (looking s)" by (auto dest: find_SomeD)
  have l: "lookups (task_settles p (Inr r) s) = lookups s"
    "membershipResultCache (task_settles p (Inr r) s) = (membershipResultCache s)(trackId t \<mapsto> r)"
    "looking (task_settles p (Inr r) s) = remove1 t (looking s)"
    using Some by (simp_all add: task_settles_def)
  show ?thesis
  proof (cases "trackId t = T")
    case True
    then have "remaining T s = 0" using t by (auto simp: remaining_def)
    moreover have "remaining T (task_settles p (Inr r) s) = 0"
      using True by (simp add: remaining_def l)
    ultimately show ?thesis by (simp add: lookup_count_def l)
  next
    case False
    have "(\<exists>u \<in> set (remove1 t (looking s)). trackId u = T) \<longleftrightarrow> (\<exists>u \<in> set (looking s). trackId u = T)"
      using False by (metis in_set_remove1 notin_set_remove1)
    then have "remaining T (task_settles p (Inr r) s) = remaining T s"
      using False by (simp add: remaining_def l)
    then show ?thesis by (simp add: lookup_count_def l)
  qed
qed

lemma potential_outer_finally:
  "lookup_count T (outer_finally p s) + remaining T (outer_finally p s)
   = lookup_count T s + remaining T s"
  by (simp add: outer_finally_def lookup_count_def remaining_def split: option.splits)

lemma potential_gate_finally:
  assumes "inv s"
  shows "lookup_count T (gate_finally p s) + remaining T (gate_finally p s)
         \<le> lookup_count T s + remaining T s"
proof (cases "find (\<lambda>t. promise t = p) (releasing s)")
  case None
  then show ?thesis by (simp add: gate_finally_def)
next
  case (Some t)
  show ?thesis
  proof (cases "membershipQueue s")
    case Nil
    then show ?thesis using Some
      by (simp add: gate_finally_def lookup_count_def remaining_def)
  next
    case (Cons nxt rest)
    have l: "lookups (gate_finally p s) = lookups s @ [trackId nxt]"
      "membershipResultCache (gate_finally p s) = membershipResultCache s"
      "looking (gate_finally p s) = looking s @ [nxt]"
      using Some Cons by (simp_all add: gate_finally_def run_def)
    have q: "nxt \<in> set (membershipQueue s)" using Cons by simp
    show ?thesis
    proof (cases "trackId nxt = T")
      case False
      then show ?thesis
        by (simp add: lookup_count_def remaining_def l)
    next
      case True
      have c: "membershipResultCache s T = None"
        using queued_registered(2)[OF inv_parts(3)[OF assms] q] True by simp
      have "u \<noteq> nxt" if "u \<in> set (looking s)" for u
        using inv_parts(2)[OF assms] that q by (auto simp: ids_inv_def all_tasks_def)
      moreover have "u = nxt" if "u \<in> set (looking s)" "trackId u = T" for u
        using same_track_same_task[OF inv_parts(3)[OF assms], of u nxt] that q True by simp
      ultimately have "\<not> (\<exists>u \<in> set (looking s). trackId u = T)" by blast
      then have "remaining T s = 1" using c by (simp add: remaining_def)
      moreover have "remaining T (gate_finally p s) = 0"
        using True by (simp add: remaining_def l)
      ultimately show ?thesis using True
        by (simp add: lookup_count_def l)
    qed
  qed
qed

lemma potential_invalidate:
  "U \<noteq> T \<Longrightarrow> lookup_count T (invalidate U s) + remaining T (invalidate U s)
   = lookup_count T s + remaining T s"
  by (simp add: invalidate_def lookup_count_def remaining_def)

lemma potential_step:
  assumes "inv s" and "ev \<noteq> Invalidate T" and "\<not> is_failure ev"
  shows "lookup_count T (step ev s) + remaining T (step ev s) \<le> lookup_count T s + remaining T s"
proof (cases ev)
  case (GetMembership U)
  then show ?thesis using potential_getMembership[OF assms(1)] by simp
next
  case (TaskSettles p out)
  then obtain r where "out = Inr r" using assms(3) by (cases out) auto
  then show ?thesis using TaskSettles potential_task_settles[OF assms(1)] by simp
next
  case (OuterFinally p)
  then show ?thesis by (simp add: potential_outer_finally)
next
  case (GateFinally p)
  then show ?thesis using potential_gate_finally[OF assms(1)] by simp
next
  case (Invalidate U)
  then show ?thesis using assms(2) by (simp add: potential_invalidate)
qed

lemma potential_exec:
  assumes "inv s" and "Invalidate T \<notin> set es" and "\<forall>ev \<in> set es. \<not> is_failure ev"
  shows "lookup_count T (exec es s) + remaining T (exec es s) \<le> lookup_count T s + remaining T s"
  using assms
proof (induction es arbitrary: s)
  case Nil
  then show ?case by (simp add: exec_def)
next
  case (Cons ev es)
  have i: "inv (step ev s)" using Cons.prems(1) by (rule inv_step)
  have "lookup_count T (exec es (step ev s)) + remaining T (exec es (step ev s))
        \<le> lookup_count T (step ev s) + remaining T (step ev s)"
    using Cons.IH[OF i] Cons.prems by simp
  also have "\<dots> \<le> lookup_count T s + remaining T s"
    using potential_step[OF Cons.prems(1), of ev T] Cons.prems by auto
  finally show ?case by (simp add: exec_def)
qed

lemma at_most_one_more_lookup:
  assumes "inv s" and "Invalidate T \<notin> set es" and "\<forall>ev \<in> set es. \<not> is_failure ev"
  shows "lookup_count T (exec es s) \<le> lookup_count T s + 1"
proof -
  have "lookup_count T (exec es s) \<le> lookup_count T s + remaining T s"
    using potential_exec[OF assms] by simp
  moreover have "remaining T s \<le> 1" by (simp add: remaining_def)
  ultimately show ?thesis by simp
qed


lemma cache_kept_step:
  assumes "inv s" and "membershipResultCache s T = Some c" and "ev \<noteq> Invalidate T"
  shows "membershipResultCache (step ev s) T = Some c"
proof (cases ev)
  case (GetMembership U)
  then show ?thesis using assms(2)
    by (auto simp: getMembership_def enqueueMembership_def run_def Let_def split: option.splits)
next
  case (TaskSettles p out)
  show ?thesis
  proof (cases "find (\<lambda>t. promise t = p) (looking s)")
    case None
    then show ?thesis using TaskSettles assms(2) by (simp add: task_settles_def)
  next
    case (Some t)
    then have "t \<in> set (looking s)" by (auto dest: find_SomeD)
    then have "membershipResultCache s (trackId t) = None"
      by (rule looking_registered(2)[OF inv_parts(3)[OF assms(1)]])
    then have "trackId t \<noteq> T" using assms(2) by auto
    then show ?thesis using TaskSettles Some assms(2)
      by (cases out) (simp_all add: task_settles_def)
  qed
next
  case (OuterFinally p)
  then show ?thesis using assms(2) by (simp add: outer_finally_def split: option.splits)
next
  case (GateFinally p)
  then show ?thesis using assms(2)
    by (simp add: gate_finally_def run_def Let_def split: option.splits list.splits)
next
  case (Invalidate U)
  then show ?thesis using assms(2,3) by (simp add: invalidate_def)
qed

lemma cache_kept_exec:
  assumes "inv s" and "membershipResultCache s T = Some c" and "Invalidate T \<notin> set es"
  shows "membershipResultCache (exec es s) T = Some c"
  using assms
proof (induction es arbitrary: s)
  case Nil
  then show ?case by (simp add: exec_def)
next
  case (Cons ev es)
  have "membershipResultCache (step ev s) T = Some c"
    using cache_kept_step[OF Cons.prems(1,2), of ev] Cons.prems(3) by auto
  then have "membershipResultCache (exec es (step ev s)) T = Some c"
    using Cons.IH[OF inv_step[OF Cons.prems(1)]] Cons.prems(3) by simp
  then show ?case by (simp add: exec_def)
qed

lemma cached_no_lookup:
  assumes "inv s" and "membershipResultCache s T = Some c"
    and "Invalidate T \<notin> set es" and "\<forall>ev \<in> set es. \<not> is_failure ev"
  shows "lookup_count T (exec es s) = lookup_count T s"
proof -
  have "lookup_count T (exec es s) \<le> lookup_count T s + remaining T s"
    using potential_exec[OF assms(1,3,4)] by simp
  moreover have "remaining T s = 0" using assms(2) by (simp add: remaining_def)
  moreover have "lookup_count T s \<le> lookup_count T (exec es s)"
  proof -
    have "lookup_count T x \<le> lookup_count T (step ev x)" for ev x
      by (cases ev)
         (auto simp: lookup_count_def getMembership_def enqueueMembership_def run_def
            task_settles_def outer_finally_def gate_finally_def invalidate_def Let_def split: option.splits sum.splits list.splits)
    then have "lookup_count T x \<le> lookup_count T (fold step es x)" for x
      by (induction es arbitrary: x) (auto intro: le_trans)
    then show ?thesis by (simp add: exec_def)
  qed
  ultimately show ?thesis by simp
qed

text \<open>The state of a task of track \<open>T\<close> with promise \<open>p\<close>: waiting or running, or done with its result cached.\<close>

lemma shared_step:
  assumes "inv s" and "ev \<noteq> Invalidate (trackId t)" and "\<not> is_failure ev"
    and "t \<in> set (membershipQueue s) \<union> set (looking s) \<or>
         (\<exists>r. resolution s (promise t) = Some (Inr r) \<and> membershipResultCache s (trackId t) = Some r)"
  shows "t \<in> set (membershipQueue (step ev s)) \<union> set (looking (step ev s)) \<or>
         (\<exists>r. resolution (step ev s) (promise t) = Some (Inr r) \<and>
              membershipResultCache (step ev s) (trackId t) = Some r)"
  using assms(4)
proof
  assume a: "\<exists>r. resolution s (promise t) = Some (Inr r) \<and> membershipResultCache s (trackId t) = Some r"
  then obtain r where r: "resolution s (promise t) = Some (Inr r)"
    "membershipResultCache s (trackId t) = Some r" by blast
  have c: "membershipResultCache (step ev s) (trackId t) = Some r"
    using cache_kept_step[OF assms(1) r(2) assms(2)] .
  have "resolution (step ev s) (promise t) = Some (Inr r)"
  proof (cases ev)
    case (TaskSettles p out)
    show ?thesis
    proof (cases "find (\<lambda>u. promise u = p) (looking s)")
      case None
      then show ?thesis using TaskSettles r by (simp add: task_settles_def)
    next
      case (Some u)
      then have u: "u \<in> set (looking s)" "promise u = p" by (auto dest: find_SomeD)
      have "\<forall>x \<in> set (membershipQueue s) \<union> set (looking s). resolution s (promise x) = None"
        using inv_parts(4)[OF assms(1)] by (simp add: res_inv_def)
      then have "resolution s (promise u) = None" using u(1) by blast
      then have "resolution s p = None" using u(2) by simp
      then have "p \<noteq> promise t" using r by auto
      then show ?thesis using TaskSettles Some r
        by (cases out) (simp_all add: task_settles_def)
    qed
  qed (use r in \<open>auto simp: getMembership_def enqueueMembership_def run_def outer_finally_def
        gate_finally_def invalidate_def Let_def split: option.splits list.splits\<close>)
  then show ?thesis using c by blast
next
  assume a: "t \<in> set (membershipQueue s) \<union> set (looking s)"
  show ?thesis
  proof (cases ev)
    case (GetMembership U)
    then show ?thesis using a
      by (auto simp: getMembership_def enqueueMembership_def run_def Let_def split: option.splits)
  next
    case (TaskSettles p out)
    obtain r where out: "out = Inr r" using assms(3) TaskSettles by (cases out) auto
    show ?thesis
    proof (cases "find (\<lambda>u. promise u = p) (looking s)")
      case None
      then show ?thesis using TaskSettles a by (simp add: task_settles_def)
    next
      case (Some u)
      show ?thesis
      proof (cases "u = t")
        case True
        then have "promise t = p" using Some by (auto dest: find_SomeD)
        then show ?thesis using TaskSettles Some True out by (simp add: task_settles_def)
      next
        case False
        then have "t \<in> set (membershipQueue s) \<union> set (remove1 u (looking s))"
          using a by (auto simp: in_set_remove1)
        then show ?thesis using TaskSettles Some out by (simp add: task_settles_def)
      qed
    qed
  next
    case (OuterFinally p)
    then show ?thesis using a by (auto simp: outer_finally_def split: option.splits)
  next
    case (GateFinally p)
    then show ?thesis using a
      by (auto simp: gate_finally_def run_def Let_def split: option.splits list.splits)
  next
    case (Invalidate U)
    then show ?thesis using a by (auto simp: invalidate_def)
  qed
qed

lemma shared_exec:
  assumes "inv s" and "Invalidate (trackId t) \<notin> set es" and "\<forall>ev \<in> set es. \<not> is_failure ev"
    and "t \<in> set (membershipQueue s) \<union> set (looking s) \<or>
         (\<exists>r. resolution s (promise t) = Some (Inr r) \<and> membershipResultCache s (trackId t) = Some r)"
  shows "t \<in> set (membershipQueue (exec es s)) \<union> set (looking (exec es s)) \<or>
         (\<exists>r. resolution (exec es s) (promise t) = Some (Inr r) \<and>
              membershipResultCache (exec es s) (trackId t) = Some r)"
  using assms
proof (induction es arbitrary: s)
  case Nil
  then show ?case by (simp add: exec_def)
next
  case (Cons ev es)
  have st: "t \<in> set (membershipQueue (step ev s)) \<union> set (looking (step ev s)) \<or>
         (\<exists>r. resolution (step ev s) (promise t) = Some (Inr r) \<and>
              membershipResultCache (step ev s) (trackId t) = Some r)"
    using shared_step[OF Cons.prems(1) _ _ Cons.prems(4), of ev] Cons.prems(2,3) by auto
  show ?case
    using Cons.IH[OF inv_step[OF Cons.prems(1)] _ _ st] Cons.prems(2,3)
    by (simp add: exec_def)
qed


lemma getMembership_stable:
  "getMembership T (snd (getMembership T s)) = (fst (getMembership T s), snd (getMembership T s))"
  by (auto simp: getMembership_def enqueueMembership_def run_def Let_def split: option.splits)

lemma asks_stable:
  "getMembership T s = (rep, s) \<Longrightarrow> asks k T s = (replicate k rep, s)"
  by (induction k) (simp_all add: Let_def)

lemma asks_share:
  "fst (asks (Suc k) T s) = replicate (Suc k) (fst (getMembership T s)) \<and>
   snd (asks (Suc k) T s) = snd (getMembership T s)"
  using asks_stable[OF getMembership_stable[of T s], of k]
  by (auto simp: Let_def split: prod.splits)

lemma getMembership_one_lookup:
  "lookup_count T (snd (getMembership T s)) \<le> lookup_count T s + 1"
  by (auto simp: getMembership_def enqueueMembership_def run_def lookup_count_def
      Let_def split: option.splits)


lemma no_second_lookup:
  "s = exec es0 init_resolver \<Longrightarrow> Invalidate T \<notin> set es \<Longrightarrow> \<forall>ev \<in> set es. \<not> is_failure ev \<Longrightarrow>
     lookup_count T (exec es s) \<le> lookup_count T s + 1 \<and>
     (\<forall>c. membershipResultCache s T = Some c \<longrightarrow>
        getMembership T s = (Cached c, s) \<and>
        getMembership T (exec es s) = (Cached c, exec es s) \<and>
        lookup_count T (exec es s) = lookup_count T s) \<and>
     (\<forall>p. membershipResultCache s T = None \<and> membershipInFlight s T = Some p \<longrightarrow>
        getMembership T s = (Pending p, s)) \<and>
     (fst (asks (Suc K) T s) = replicate (Suc K) (fst (getMembership T s)) \<and>
      snd (asks (Suc K) T s) = snd (getMembership T s) \<and>
      lookup_count T (snd (asks (Suc K) T s)) \<le> lookup_count T s + 1) \<and>
     (\<forall>t \<in> set (membershipQueue s) \<union> set (looking s). trackId t = T \<longrightarrow>
        getMembership T s = (Pending (promise t), s) \<and>
        (\<forall>r. resolution (exec es s) (promise t) = Some (Inr r) \<longrightarrow>
           getMembership T (exec es s) = (Cached r, exec es s)))"
proof -
  assume s: "s = exec es0 init_resolver" and ni: "Invalidate T \<notin> set es"
    and nf: "\<forall>ev \<in> set es. \<not> is_failure ev"
  have i: "inv s" unfolding s by (rule inv_reachable)
  have a: "lookup_count T (exec es s) \<le> lookup_count T s + 1"
    using i ni nf by (rule at_most_one_more_lookup)
  have b: "getMembership T s = (Cached c, s) \<and> getMembership T (exec es s) = (Cached c, exec es s)
           \<and> lookup_count T (exec es s) = lookup_count T s"
    if "membershipResultCache s T = Some c" for c
    using that cache_kept_exec[OF i that ni] cached_no_lookup[OF i that ni nf]
    by (simp add: getMembership_def)
  have c: "getMembership T s = (Pending p, s)"
    if "membershipResultCache s T = None \<and> membershipInFlight s T = Some p" for p
    using that by (simp add: getMembership_def)
  have d: "fst (asks (Suc K) T s) = replicate (Suc K) (fst (getMembership T s)) \<and>
      snd (asks (Suc K) T s) = snd (getMembership T s) \<and>
      lookup_count T (snd (asks (Suc K) T s)) \<le> lookup_count T s + 1"
    using asks_share[of K T s] getMembership_one_lookup[of T s] by simp
  have e: "getMembership T s = (Pending (promise t), s) \<and>
        (\<forall>r. resolution (exec es s) (promise t) = Some (Inr r) \<longrightarrow>
           getMembership T (exec es s) = (Cached r, exec es s))"
    if t: "t \<in> set (membershipQueue s) \<union> set (looking s)" and tt: "trackId t = T" for t
  proof -
    have "membershipInFlight s (trackId t) = Some (promise t) \<and>
          membershipResultCache s (trackId t) = None"
      using t looking_registered[OF inv_parts(3)[OF i], of t]
        queued_registered[OF inv_parts(3)[OF i], of t] by auto
    then have reg: "membershipInFlight s T = Some (promise t)" "membershipResultCache s T = None"
      using tt by simp_all
    have sh: "t \<in> set (membershipQueue (exec es s)) \<union> set (looking (exec es s)) \<or>
         (\<exists>r. resolution (exec es s) (promise t) = Some (Inr r) \<and>
              membershipResultCache (exec es s) (trackId t) = Some r)"
      using shared_exec[OF i _ nf, of t] ni t tt by blast
    have unres: "resolution (exec es s) (promise t) = None"
      if "t \<in> set (membershipQueue (exec es s)) \<union> set (looking (exec es s))"
      using inv_parts(4)[OF inv_exec[OF i, of es]] that unfolding res_inv_def by blast
    have "getMembership T (exec es s) = (Cached r, exec es s)"
      if "resolution (exec es s) (promise t) = Some (Inr r)" for r
      using sh that unres tt by (auto simp: getMembership_def)
    then show ?thesis using reg by (simp add: getMembership_def)
  qed
  show ?thesis using a b c d e by blast
qed


lemma host_step_as_event: "host_step ev s = step (as_event s ev) s"
  by (cases ev) (auto simp: as_event_def lookup_settles_def task_settles_def split: option.splits)

lemma as_event_no_failure: "\<not> is_failure (as_event s ev)"
proof (cases ev)
  case (LookupSettles env p)
  show ?thesis
  proof (cases "find (\<lambda>t. promise t = p) (looking s)")
    case None
    then show ?thesis using LookupSettles by (simp add: as_event_def)
  next
    case (Some t)
    obtain r where "checkSongInUserPlaylists env (trackId t) = Inr r"
      using checkSong_total by blast
    then show ?thesis using LookupSettles Some by (simp add: as_event_def)
  qed
qed (simp_all add: as_event_def)

lemma as_event_invalidate: "as_event s ev = Invalidate T \<Longrightarrow> ev = CacheDeleted T"
  by (cases ev) (auto simp: as_event_def split: option.splits)

lemma host_exec_as_exec:
  "\<exists>es'. host_exec es s = exec es' s \<and> (\<forall>ev \<in> set es'. \<not> is_failure ev) \<and>
         (CacheDeleted T \<notin> set es \<longrightarrow> Invalidate T \<notin> set es')"
proof (induction es arbitrary: s)
  case Nil
  have "host_exec [] s = exec [] s" by (simp add: host_exec_def exec_def)
  then show ?case by (metis empty_iff list.set(1))
next
  case (Cons ev es)
  obtain es' where e: "host_exec es (step (as_event s ev) s) = exec es' (step (as_event s ev) s)"
    "\<forall>ev \<in> set es'. \<not> is_failure ev" "CacheDeleted T \<notin> set es \<longrightarrow> Invalidate T \<notin> set es'"
    using Cons.IH by blast
  have 1: "host_exec (ev # es) s = exec (as_event s ev # es') s"
    using e(1) by (simp add: host_exec_def exec_def host_step_as_event)
  have 2: "\<forall>x \<in> set (as_event s ev # es'). \<not> is_failure x"
    using e(2) as_event_no_failure by simp
  have 3: "CacheDeleted T \<notin> set (ev # es) \<longrightarrow> Invalidate T \<notin> set (as_event s ev # es')"
    using e(3) as_event_invalidate[of s ev T] by auto
  show ?case using 1 2 3 by blast
qed

text \<open>
  C1. Take any state the resolver can reach with \<^verbatim>\<open>checkSongInUserPlaylists\<close> as its task,
  and any continuation in which the cache entry of track \<open>T\<close> is not invalidated. Then at
  most one lookup for \<open>T\<close> starts in the continuation, however many calls it contains. When a result is cached, a call returns that very result without touching
  the state, and so does every call later in the continuation, with no lookup at all.
  \<open>K\<close> calls in a row get the same reply, the first one alone changing the state, with at
  most one lookup started. A computation for \<open>T\<close> that is waiting or running is the one
  registered in the in-flight map, so every call made meanwhile gets its promise; once it
  has produced a result, calls are answered with that result from the cache.
\<close>

theorem one_lookup_between_invalidations:
  "s = host_exec es0 init_resolver \<Longrightarrow> CacheDeleted T \<notin> set es \<Longrightarrow>
     lookup_count T (host_exec es s) \<le> lookup_count T s + 1 \<and>
     (\<forall>c. membershipResultCache s T = Some c \<longrightarrow>
        getMembership T s = (Cached c, s) \<and>
        getMembership T (host_exec es s) = (Cached c, host_exec es s) \<and>
        lookup_count T (host_exec es s) = lookup_count T s) \<and>
     (\<forall>p. membershipResultCache s T = None \<and> membershipInFlight s T = Some p \<longrightarrow>
        getMembership T s = (Pending p, s)) \<and>
     (fst (asks (Suc K) T s) = replicate (Suc K) (fst (getMembership T s)) \<and>
      snd (asks (Suc K) T s) = snd (getMembership T s) \<and>
      lookup_count T (snd (asks (Suc K) T s)) \<le> lookup_count T s + 1) \<and>
     (\<forall>t \<in> set (membershipQueue s) \<union> set (looking s). trackId t = T \<longrightarrow>
        getMembership T s = (Pending (promise t), s) \<and>
        (\<forall>r. resolution (host_exec es s) (promise t) = Some (Inr r) \<longrightarrow>
           getMembership T (host_exec es s) = (Cached r, host_exec es s)))"
proof -
  assume s: "s = host_exec es0 init_resolver" and ni: "CacheDeleted T \<notin> set es"
  obtain es0' where r0: "s = exec es0' init_resolver"
    using host_exec_as_exec[of es0 init_resolver] s by blast
  obtain es' where r: "host_exec es s = exec es' s" "\<forall>ev \<in> set es'. \<not> is_failure ev"
    "Invalidate T \<notin> set es'"
    using host_exec_as_exec[of es s T] ni by blast
  show ?thesis
    using no_second_lookup[OF r0 r(3) r(2), of K] unfolding r(1) .
qed

lemma three_rows_state:
  "CacheDeleted ''123'' \<notin> set three_rows"
  "looking (host_exec [RowAsks ''123''] init_resolver) = [\<lparr>promise = 0, trackId = ''123''\<rparr>]"
  "resolution (host_exec three_rows (host_exec [RowAsks ''123''] init_resolver)) 0 = Some (Inr result_A)"
  "lookups (host_exec three_rows (host_exec [RowAsks ''123''] init_resolver)) = [''123'']"
  "membershipResultCache (host_exec three_rows (host_exec [RowAsks ''123''] init_resolver)) ''123'' = Some result_A"
  "fst (asks 3 ''123'' (host_exec [RowAsks ''123''] init_resolver)) = [Pending 0, Pending 0, Pending 0]"
  using lookup_mine
  by (simp_all add: three_rows_def host_exec_def lookup_settles_def resolver_defs result_A_def
      numeral_3_eq_3 Let_def)

lemma cached_A_state:
  "cached_A = host_exec [RowAsks ''123'', LookupSettles env_mine 0, InFlightDeleted 0, SlotReleased 0] init_resolver"
  "membershipResultCache cached_A ''123'' = Some result_A"
  "lookups cached_A = [''123'']"
  "lookups (host_exec three_rows cached_A) = [''123'']"
  "membershipResultCache (host_exec three_rows cached_A) ''123'' = Some result_A"
  using lookup_mine
  by (simp_all add: cached_A_def three_rows_def host_exec_def lookup_settles_def resolver_defs
      result_A_def Let_def)

theorem one_lookup_between_invalidations_witness:
  "CacheDeleted ''123'' \<notin> set three_rows \<and>
   \<lparr>promise = 0, trackId = ''123''\<rparr> \<in> set (looking (host_exec [RowAsks ''123''] init_resolver)) \<and>
   resolution (host_exec three_rows (host_exec [RowAsks ''123''] init_resolver)) 0 = Some (Inr result_A) \<and>
   lookup_count ''123'' (host_exec three_rows (host_exec [RowAsks ''123''] init_resolver)) = 1 \<and>
   fst (getMembership ''123'' (host_exec three_rows (host_exec [RowAsks ''123''] init_resolver))) = Cached result_A \<and>
   fst (asks 3 ''123'' (host_exec [RowAsks ''123''] init_resolver)) = [Pending 0, Pending 0, Pending 0] \<and>
   membershipResultCache cached_A ''123'' = Some result_A \<and>
   lookup_count ''123'' cached_A = 1 \<and>
   lookup_count ''123'' (host_exec three_rows cached_A) = 1 \<and>
   fst (getMembership ''123'' (host_exec three_rows cached_A)) = Cached result_A"
  using one_lookup_between_invalidations[of "host_exec [RowAsks ''123''] init_resolver"
      "[RowAsks ''123'']" "''123''" three_rows 2]
    one_lookup_between_invalidations[of cached_A
      "[RowAsks ''123'', LookupSettles env_mine 0, InFlightDeleted 0, SlotReleased 0]"
      "''123''" three_rows 2]
  by (simp add: three_rows_state cached_A_state(2-) lookup_count_def getMembership_def)

lemma failed_task_effects:
  fixes e :: js_error
  assumes "inv s" and "t \<in> set (looking s)"
  defines "s1 \<equiv> task_settles (promise t) (Inl e) s"
  defines "s2 \<equiv> outer_finally (promise t) s1"
  defines "s3 \<equiv> gate_finally (promise t) s2"
  shows "resolution s1 (promise t) = Some (Inl e)"
    and "membershipResultCache s1 = membershipResultCache s"
    and "membershipInFlight s1 = membershipInFlight s"
    and "membershipResultCache s2 = membershipResultCache s"
    and "membershipInFlight s2 = (membershipInFlight s)(trackId t := None)"
    and "membershipResultCache s3 = membershipResultCache s"
    and "membershipInFlight s3 = (membershipInFlight s)(trackId t := None)"
    and "nextPromise s3 = nextPromise s"
    and "membershipQueue s = [] \<Longrightarrow> inFlightCount s3 = inFlightCount s - 1 \<and> lookups s3 = lookups s
           \<and> membershipQueue s3 = []"
proof -
  have ids: "ids_inv s" using assms(1) by (simp add: inv_def)
  have f1: "find (\<lambda>u. promise u = promise t) (looking s) = Some t"
    using find_promise[OF ids _ assms(2)] by (auto simp: all_tasks_def)
  have e1: "resolution s1 (promise t) = Some (Inl e)"
    "membershipResultCache s1 = membershipResultCache s"
    "membershipInFlight s1 = membershipInFlight s"
    "nextPromise s1 = nextPromise s" "membershipQueue s1 = membershipQueue s"
    "inFlightCount s1 = inFlightCount s" "lookups s1 = lookups s"
    using f1 by (simp_all add: s1_def task_settles_def)
  have ids1: "ids_inv s1" unfolding s1_def using ids by (rule ids_inv_task_settles)
  have in1: "t \<in> set (settling s1)" using f1 by (simp add: s1_def task_settles_def)
  have f2: "find (\<lambda>u. promise u = promise t) (settling s1) = Some t"
    using find_promise[OF ids1 _ in1] by (auto simp: all_tasks_def)
  have e2: "membershipResultCache s2 = membershipResultCache s1"
    "membershipInFlight s2 = (membershipInFlight s1)(trackId t := None)"
    "nextPromise s2 = nextPromise s1" "membershipQueue s2 = membershipQueue s1"
    "inFlightCount s2 = inFlightCount s1" "lookups s2 = lookups s1"
    using f2 by (simp_all add: s2_def outer_finally_def)
  have ids2: "ids_inv s2" unfolding s2_def using ids1 by (rule ids_inv_outer_finally)
  have in2: "t \<in> set (releasing s2)" using f2 by (simp add: s2_def outer_finally_def)
  have f3: "find (\<lambda>u. promise u = promise t) (releasing s2) = Some t"
    using find_promise[OF ids2 _ in2] by (auto simp: all_tasks_def)
  have e3: "membershipResultCache s3 = membershipResultCache s2"
    "membershipInFlight s3 = membershipInFlight s2"
    "nextPromise s3 = nextPromise s2"
    using f3 by (simp_all add: s3_def gate_finally_def run_def Let_def split: list.splits)
  have e3': "inFlightCount s3 = inFlightCount s2 - 1 \<and> lookups s3 = lookups s2 \<and> membershipQueue s3 = []"
    if "membershipQueue s2 = []"
    using f3 that by (simp add: s3_def gate_finally_def)
  show "resolution s1 (promise t) = Some (Inl e)" by (rule e1)
  show "membershipResultCache s1 = membershipResultCache s" by (rule e1)
  show "membershipInFlight s1 = membershipInFlight s" by (rule e1)
  show "membershipResultCache s2 = membershipResultCache s" by (simp add: e1 e2)
  show "membershipInFlight s2 = (membershipInFlight s)(trackId t := None)" by (simp add: e1 e2)
  show "membershipResultCache s3 = membershipResultCache s" by (simp add: e1 e2 e3)
  show "membershipInFlight s3 = (membershipInFlight s)(trackId t := None)" by (simp add: e1 e2 e3)
  show "nextPromise s3 = nextPromise s" by (simp add: e1 e2 e3)
  show "inFlightCount s3 = inFlightCount s - 1 \<and> lookups s3 = lookups s \<and> membershipQueue s3 = []"
    if "membershipQueue s = []"
    using e3' that by (simp add: e1 e2)
qed

text \<open>
  The resolver taken alone, with a task whose promise is rejected: nothing is stored in
  the cache, the reaction of \<^verbatim>\<open>getMembership\<close> removes the in-flight entry of the track,
  and a call made after the gate's reaction gets a new promise and a new task, which is
  started at once when nobody is queued.
\<close>

lemma rejected_task_retried:
  "s = exec es0 init_resolver \<Longrightarrow> t \<in> set (looking s) \<Longrightarrow>
     membershipInFlight s (trackId t) = Some (promise t) \<and>
     resolution (task_settles (promise t) (Inl e) s) (promise t) = Some (Inl e) \<and>
     membershipResultCache (task_settles (promise t) (Inl e) s) = membershipResultCache s \<and>
     membershipInFlight (outer_finally (promise t) (task_settles (promise t) (Inl e) s)) (trackId t) = None \<and>
     membershipResultCache (outer_finally (promise t) (task_settles (promise t) (Inl e) s)) (trackId t) = None \<and>
     (let s3 = gate_finally (promise t) (outer_finally (promise t) (task_settles (promise t) (Inl e) s))
      in membershipInFlight s3 (trackId t) = None \<and>
         membershipResultCache s3 (trackId t) = None \<and>
         fst (getMembership (trackId t) s3) = Pending (nextPromise s) \<and>
         nextPromise s \<noteq> promise t \<and>
         \<lparr>promise = nextPromise s, trackId = trackId t\<rparr>
           \<in> set (membershipQueue (snd (getMembership (trackId t) s3)))
             \<union> set (looking (snd (getMembership (trackId t) s3))) \<and>
         (membershipQueue s = [] \<longrightarrow>
            lookups (snd (getMembership (trackId t) s3)) = lookups s @ [trackId t]))"
proof -
  assume s: "s = exec es0 init_resolver" and t: "t \<in> set (looking s)"
  have i: "inv s" unfolding s by (rule inv_reachable)
  note fx = failed_task_effects[OF i t, of e]
  have reg: "membershipInFlight s (trackId t) = Some (promise t)"
    "membershipResultCache s (trackId t) = None"
    using looking_registered[OF inv_parts(3)[OF i] t] by simp_all
  have lt: "promise t < nextPromise s"
    using inv_parts(2)[OF i] t by (auto simp: ids_inv_def all_tasks_def)
  have cnt: "inFlightCount s \<le> MAX_CONCURRENT_MEMBERSHIP"
    using inv_parts(1)[OF i] by (simp add: gate_inv_def)
  let ?s3 = "gate_finally (promise t) (outer_finally (promise t) (task_settles (promise t) (Inl e) s))"
  have c3: "membershipResultCache ?s3 (trackId t) = None" "membershipInFlight ?s3 (trackId t) = None"
    "nextPromise ?s3 = nextPromise s"
    using fx(6,7,8) reg by simp_all
  have g: "fst (getMembership (trackId t) ?s3) = Pending (nextPromise s) \<and>
         \<lparr>promise = nextPromise s, trackId = trackId t\<rparr>
           \<in> set (membershipQueue (snd (getMembership (trackId t) ?s3)))
             \<union> set (looking (snd (getMembership (trackId t) ?s3)))"
    using c3 by (simp add: getMembership_def enqueueMembership_def run_def Let_def)
  have r: "lookups (snd (getMembership (trackId t) ?s3)) = lookups s @ [trackId t]"
    if "membershipQueue s = []"
    using c3 fx(9)[OF that] cnt
    by (simp add: getMembership_def enqueueMembership_def run_def Let_def)
  show ?thesis
    using reg fx(1,2,4,5) c3 g r lt by (simp add: Let_def)
qed






end
